theory Spec2Isabelle
  imports Complex_Main "HOL-Library.Sublist"
begin

unbundle bit_operations_syntax

section \<open>Double precision\<close>

text \<open>
  JavaScript numbers are IEEE 754 double-precision values: the result of an arithmetic
  operation is the exact result rounded to the nearest value with 53 significant bits,
  a tie going to the value with an even significand.  \<open>round_to prec\<close> is this rounding
  to \<open>prec\<close> significant bits; the exponent is not bounded, so that overflow and
  subnormal numbers are left out (magnitudes from \<open>2 powi (- 1022)\<close> up to
  \<open>2 powi 1024\<close> are rounded as the machine does).  A \<^verbatim>\<open>Float32Array\<close> stores its
  elements rounded to 24 significant bits.
\<close>

definition round_even :: "real \<Rightarrow> int" where
  "round_even t =
     (if t - of_int \<lfloor>t\<rfloor> < 1 / 2 then \<lfloor>t\<rfloor>
      else if 1 / 2 < t - of_int \<lfloor>t\<rfloor> then \<lfloor>t\<rfloor> + 1
      else if even \<lfloor>t\<rfloor> then \<lfloor>t\<rfloor> else \<lfloor>t\<rfloor> + 1)"

definition round_to :: "nat \<Rightarrow> real \<Rightarrow> real" where
  "round_to prec t =
     (if t = 0 then 0
      else of_int (round_even (t / 2 powi (\<lfloor>log 2 \<bar>t\<bar>\<rfloor> - int prec + 1)))
             * 2 powi (\<lfloor>log 2 \<bar>t\<bar>\<rfloor> - int prec + 1))"

definition double :: "real \<Rightarrow> real" where
  "double = round_to 53"

definition float32 :: "real \<Rightarrow> real" where
  "float32 = round_to 24"


section \<open>Boolean composition pipeline (sketch.js, buildSculpture)\<close>

text \<open>
  A brush is a mesh object whose \<^verbatim>\<open>geometry\<close> may be missing and whose geometry
  may lack the \<^verbatim>\<open>position\<close> attribute.  The type parameter is the position
  data.  \<^verbatim>\<open>geometry.attributes\<close> itself is always an object on a buffer geometry,
  so only the presence of \<^verbatim>\<open>attributes.position\<close> is modelled.
\<close>

record 'a buffer_geometry =
  position :: "'a option"

record 'a brush =
  geometry :: "'a buffer_geometry option"

datatype csg_op = ADDITION | SUBTRACTION | INTERSECTION

text \<open>
  \<^verbatim>\<open>csgEvaluator.evaluate(a, b, op)\<close> belongs to an external library.  A call either
  throws or returns a value, which may be null or undefined (\<open>None\<close>).
\<close>

datatype 'a outcome = Throws | Returns "'a brush option"

type_synonym 'a evaluator = "'a brush \<Rightarrow> 'a brush \<Rightarrow> csg_op \<Rightarrow> 'a outcome"

text \<open>The test \<^verbatim>\<open>result && result.geometry && result.geometry.attributes.position\<close>.\<close>

fun has_position :: "'a brush option \<Rightarrow> bool" where
  "has_position None = False"
| "has_position (Some b) =
     (case geometry b of None \<Rightarrow> False | Some g \<Rightarrow> position g \<noteq> None)"

text \<open>
  The body of the merging loops (lines 214-224 and 232-242): the try block replaces the
  accumulator only by a result that passes the test; the catch block leaves it alone.
\<close>

definition merge_step :: "'a evaluator \<Rightarrow> 'a brush \<Rightarrow> 'a brush \<Rightarrow> 'a brush" where
  "merge_step ev acc cube =
     (case ev acc cube ADDITION of
        Throws \<Rightarrow> acc
      | Returns None \<Rightarrow> acc
      | Returns (Some result) \<Rightarrow> if has_position (Some result) then result else acc)"

text \<open>The loop \<^verbatim>\<open>for (let i = 1; i < cubes.length; i++)\<close> over the remaining cubes.\<close>

fun merge_loop :: "'a evaluator \<Rightarrow> 'a brush \<Rightarrow> 'a brush list \<Rightarrow> 'a brush" where
  "merge_loop ev acc [] = acc"
| "merge_loop ev acc (cube # cubes) = merge_loop ev (merge_step ev acc cube) cubes"

text \<open>
  One class fold (lines 211-226 and 229-244).  The merged brush is a variable of the
  module: with an empty list the branch is skipped and the variable keeps the value it
  had before the call (\<open>None\<close> on the first build).
\<close>

fun merge_class :: "'a evaluator \<Rightarrow> 'a brush option \<Rightarrow> 'a brush list \<Rightarrow> 'a brush option" where
  "merge_class ev old [] = old"
| "merge_class ev old (cube # cubes) = Some (merge_loop ev cube cubes)"

text \<open>Step 2 (lines 257-272): the base plate is added to the dark brush.\<close>

fun add_base :: "'a evaluator \<Rightarrow> 'a brush \<Rightarrow> 'a brush option \<Rightarrow> 'a brush option" where
  "add_base ev baseBrush None = Some baseBrush"
| "add_base ev baseBrush (Some dark) =
     (case ev dark baseBrush ADDITION of
        Throws \<Rightarrow> Some baseBrush
      | Returns None \<Rightarrow> Some dark
      | Returns (Some result) \<Rightarrow>
          if has_position (Some result) then Some result else Some dark)"

text \<open>Step 3 (lines 275-288): the dark brush is subtracted from the light brush.\<close>

fun subtract_dark :: "'a evaluator \<Rightarrow> 'a brush option \<Rightarrow> 'a brush option \<Rightarrow> 'a brush option" where
  "subtract_dark ev (Some light) (Some dark) =
     (case ev light dark SUBTRACTION of
        Throws \<Rightarrow> Some light
      | Returns None \<Rightarrow> Some light
      | Returns (Some result) \<Rightarrow>
          if has_position (Some result) then Some result else Some light)"
| "subtract_dark ev light dark = light"

record 'a merged =
  lightMergedBrush :: "'a brush option"
  darkMergedBrush :: "'a brush option"

text \<open>
  The composition part of \<^verbatim>\<open>buildSculpture\<close>, from the collected cube lists to the
  two merged brushes; \<open>st\<close> holds the two module variables on entry.
\<close>

definition compose :: "'a evaluator \<Rightarrow> 'a brush \<Rightarrow> 'a merged \<Rightarrow> 'a brush list \<Rightarrow> 'a brush list \<Rightarrow> 'a merged" where
  "compose ev baseBrush st allLightCubes allDarkCubes =
     (let light1 = merge_class ev (lightMergedBrush st) allLightCubes;
          dark1 = merge_class ev (darkMergedBrush st) allDarkCubes;
          dark2 = add_base ev baseBrush dark1;
          light3 = subtract_dark ev light1 dark2
      in \<lparr>lightMergedBrush = light3, darkMergedBrush = dark2\<rparr>)"

text \<open>An operation fails when it throws or its result does not pass the test.\<close>

fun failed :: "'a outcome \<Rightarrow> bool" where
  "failed Throws = True"
| "failed (Returns r) = (\<not> has_position r)"

text \<open>An accumulator is in order when it is unset or holds a brush with position data.\<close>

fun sound :: "'a brush option \<Rightarrow> bool" where
  "sound None = True"
| "sound (Some b) = has_position (Some b)"

text \<open>Sample brushes for the concrete evaluations below.\<close>

definition sample_brush :: "nat \<Rightarrow> nat brush" where
  "sample_brush n = \<lparr>geometry = Some \<lparr>position = Some n\<rparr>\<rparr>"

text \<open>
  A brush over position arrays has renderable position data when it has a geometry whose
  position attribute holds at least one number.  The test of the source asks only whether
  the attribute is there.
\<close>

fun renderable :: "'b list brush option \<Rightarrow> bool" where
  "renderable None = False"
| "renderable (Some b) =
     (case geometry b of
        None \<Rightarrow> False
      | Some g \<Rightarrow> (case position g of None \<Rightarrow> False | Some ps \<Rightarrow> ps \<noteq> []))"

text \<open>A brush with the given position array.\<close>

definition solid :: "real list \<Rightarrow> real list brush" where
  "solid ps = \<lparr>geometry = Some \<lparr>position = Some ps\<rparr>\<rparr>"

section \<open>Circle packer (class CirclePacker)\<close>

text \<open>
  Numbers are modelled as real numbers, without the rounding of double precision.  The
  object literal \<^verbatim>\<open>{ x, y, radius }\<close> is a value of type \<open>circle\<close>.
\<close>

datatype circle = Circle (circle_x: real) (circle_y: real) (circle_radius: real)

record rect =
  width :: real
  height :: real

record packer =
  bounds :: rect
  minRadius :: real
  maxRadius :: real
  circles :: "circle list"
  attempts :: nat

definition CirclePacker :: "rect \<Rightarrow> real \<Rightarrow> real \<Rightarrow> packer" where
  "CirclePacker b minR maxR =
     \<lparr>bounds = b, minRadius = minR, maxRadius = maxR, circles = [], attempts = 5000\<rparr>"

text \<open>The loop of \<^verbatim>\<open>isOverlapping\<close> over \<^verbatim>\<open>this.circles\<close>, with its early return.\<close>

fun overlapping :: "circle list \<Rightarrow> real \<Rightarrow> real \<Rightarrow> real \<Rightarrow> bool" where
  "overlapping [] x y radius = False"
| "overlapping (circle # rest) x y radius =
     (let dx = x - circle_x circle;
          dy = y - circle_y circle;
          distance = sqrt (dx * dx + dy * dy)
      in if distance < radius + circle_radius circle then True
         else overlapping rest x y radius)"

definition isOverlapping :: "packer \<Rightarrow> real \<Rightarrow> real \<Rightarrow> real \<Rightarrow> bool" where
  "isOverlapping pk x y radius = overlapping (circles pk) x y radius"

definition isWithinBounds :: "packer \<Rightarrow> real \<Rightarrow> real \<Rightarrow> real \<Rightarrow> bool" where
  "isWithinBounds pk x y radius =
     (x - radius > - width (bounds pk) / 2 \<and>
      x + radius < width (bounds pk) / 2 \<and>
      y - radius > - rect.height (bounds pk) / 2 \<and>
      y + radius < rect.height (bounds pk) / 2)"

text \<open>
  \<^verbatim>\<open>Math.random()\<close> is a stream of draws \<open>rnd 0, rnd 1, \<dots>\<close> in call order; trial
  \<open>i\<close> makes the draws \<open>3 i\<close> (radius), \<open>3 i + 1\<close> (x) and \<open>3 i + 2\<close> (y).  The draws
  lie in \<open>[0, 1)\<close>, where \<^verbatim>\<open>Math.pow\<close> agrees with \<open>powr\<close> (the exponent is positive).
  The requested count is a natural number.
\<close>

definition candidate :: "packer \<Rightarrow> nat \<Rightarrow> (nat \<Rightarrow> real) \<Rightarrow> nat \<Rightarrow> nat \<Rightarrow> circle" where
  "candidate pk count rnd i placed =
     (let radiusBias = 1 - real placed / real count;
          radius = minRadius pk +
                   (maxRadius pk - minRadius pk) *
                   (rnd (3 * i) powr (1 / (1 + radiusBias * 2)));
          x = (rnd (3 * i + 1) - 0.5) * width (bounds pk);
          y = (rnd (3 * i + 2) - 0.5) * rect.height (bounds pk)
      in Circle x y radius)"

text \<open>The acceptance test of a trial (lines 54-55).\<close>

definition accepts :: "packer \<Rightarrow> circle \<Rightarrow> bool" where
  "accepts pk c =
     (isWithinBounds pk (circle_x c) (circle_y c) (circle_radius c) \<and>
      \<not> isOverlapping pk (circle_x c) (circle_y c) (circle_radius c))"

text \<open>
  The loop \<^verbatim>\<open>for (let i = 0; i < this.attempts && placed < count; i++)\<close>.  It returns
  the packer and the final value of \<open>i\<close>, the number of trials made.
\<close>

function pack_loop :: "packer \<Rightarrow> nat \<Rightarrow> (nat \<Rightarrow> real) \<Rightarrow> nat \<Rightarrow> nat \<Rightarrow> packer \<times> nat" where
  "pack_loop pk count rnd i placed =
     (if i < attempts pk \<and> placed < count then
        (let c = candidate pk count rnd i placed in
         if accepts pk c
         then pack_loop (pk\<lparr>circles := circles pk @ [c]\<rparr>) count rnd (i + 1) (placed + 1)
         else pack_loop pk count rnd (i + 1) placed)
      else (pk, i))"
  by pat_completeness auto
termination
  by (relation "measure (\<lambda>(pk, count, rnd, i, placed). attempts pk - i)") auto

declare pack_loop.simps [simp del]

definition pack :: "packer \<Rightarrow> nat \<Rightarrow> (nat \<Rightarrow> real) \<Rightarrow> circle list" where
  "pack pk count rnd = circles (fst (pack_loop (pk\<lparr>circles := []\<rparr>) count rnd 0 0))"

definition pack_trials :: "packer \<Rightarrow> nat \<Rightarrow> (nat \<Rightarrow> real) \<Rightarrow> nat" where
  "pack_trials pk count rnd = snd (pack_loop (pk\<lparr>circles := []\<rparr>) count rnd 0 0)"

text \<open>The distance of two centres, as \<^verbatim>\<open>isOverlapping\<close> computes it.\<close>

definition distance :: "circle \<Rightarrow> circle \<Rightarrow> real" where
  "distance c1 c2 =
     (let dx = circle_x c1 - circle_x c2; dy = circle_y c1 - circle_y c2
      in sqrt (dx * dx + dy * dy))"

definition inside_rect :: "rect \<Rightarrow> circle \<Rightarrow> bool" where
  "inside_rect b c =
     (circle_x c - circle_radius c > - width b / 2 \<and>
      circle_x c + circle_radius c < width b / 2 \<and>
      circle_y c - circle_radius c > - rect.height b / 2 \<and>
      circle_y c + circle_radius c < rect.height b / 2)"

text \<open>Sample draws: every radius draw is 0, every centre draw 0.5 except draw 4.\<close>

definition sample_rnd :: "nat \<Rightarrow> real" where
  "sample_rnd n = (if n = 4 then 0.75 else if n mod 3 = 0 then 0 else 0.5)"

definition sample_packer :: packer where
  "sample_packer = CirclePacker \<lparr>width = 50, rect.height = 50\<rparr> 1 3"

text \<open>
  The packer in double precision: the result of every arithmetic operation of
  \<^verbatim>\<open>isOverlapping\<close>, \<^verbatim>\<open>isWithinBounds\<close> and \<^verbatim>\<open>pack\<close> is rounded.  \<^verbatim>\<open>Math.sqrt\<close> is
  the correctly rounded square root.  \<^verbatim>\<open>Math.pow\<close> is approximated in a way that is left
  to the implementation; it is the parameter \<open>pw\<close>.
\<close>

fun overlapping_fl :: "circle list \<Rightarrow> real \<Rightarrow> real \<Rightarrow> real \<Rightarrow> bool" where
  "overlapping_fl [] x y radius = False"
| "overlapping_fl (circle # rest) x y radius =
     (let dx = double (x - circle_x circle);
          dy = double (y - circle_y circle);
          distance = double (sqrt (double (double (dx * dx) + double (dy * dy))))
      in if distance < double (radius + circle_radius circle) then True
         else overlapping_fl rest x y radius)"

definition isOverlapping_fl :: "packer \<Rightarrow> real \<Rightarrow> real \<Rightarrow> real \<Rightarrow> bool" where
  "isOverlapping_fl pk x y radius = overlapping_fl (circles pk) x y radius"

definition isWithinBounds_fl :: "packer \<Rightarrow> real \<Rightarrow> real \<Rightarrow> real \<Rightarrow> bool" where
  "isWithinBounds_fl pk x y radius =
     (double (x - radius) > double (- width (bounds pk) / 2) \<and>
      double (x + radius) < double (width (bounds pk) / 2) \<and>
      double (y - radius) > double (- rect.height (bounds pk) / 2) \<and>
      double (y + radius) < double (rect.height (bounds pk) / 2))"

definition candidate_fl ::
  "(real \<Rightarrow> real \<Rightarrow> real) \<Rightarrow> packer \<Rightarrow> nat \<Rightarrow> (nat \<Rightarrow> real) \<Rightarrow> nat \<Rightarrow> nat \<Rightarrow> circle" where
  "candidate_fl pw pk count rnd i placed =
     (let radiusBias = double (1 - double (real placed / real count));
          radius = double (minRadius pk +
                   double (double (maxRadius pk - minRadius pk) *
                   pw (rnd (3 * i)) (double (1 / double (1 + double (radiusBias * 2))))));
          x = double (double (rnd (3 * i + 1) - 0.5) * width (bounds pk));
          y = double (double (rnd (3 * i + 2) - 0.5) * rect.height (bounds pk))
      in Circle x y radius)"

definition accepts_fl :: "packer \<Rightarrow> circle \<Rightarrow> bool" where
  "accepts_fl pk c =
     (isWithinBounds_fl pk (circle_x c) (circle_y c) (circle_radius c) \<and>
      \<not> isOverlapping_fl pk (circle_x c) (circle_y c) (circle_radius c))"

function pack_loop_fl ::
  "(real \<Rightarrow> real \<Rightarrow> real) \<Rightarrow> packer \<Rightarrow> nat \<Rightarrow> (nat \<Rightarrow> real) \<Rightarrow> nat \<Rightarrow> nat \<Rightarrow> packer \<times> nat" where
  "pack_loop_fl pw pk count rnd i placed =
     (if i < attempts pk \<and> placed < count then
        (let c = candidate_fl pw pk count rnd i placed in
         if accepts_fl pk c
         then pack_loop_fl pw (pk\<lparr>circles := circles pk @ [c]\<rparr>) count rnd (i + 1) (placed + 1)
         else pack_loop_fl pw pk count rnd (i + 1) placed)
      else (pk, i))"
  by pat_completeness auto
termination
  by (relation "measure (\<lambda>(pw, pk, count, rnd, i, placed). attempts pk - i)") auto

declare pack_loop_fl.simps [simp del]

definition pack_fl :: "(real \<Rightarrow> real \<Rightarrow> real) \<Rightarrow> packer \<Rightarrow> nat \<Rightarrow> (nat \<Rightarrow> real) \<Rightarrow> circle list" where
  "pack_fl pw pk count rnd = circles (fst (pack_loop_fl pw (pk\<lparr>circles := []\<rparr>) count rnd 0 0))"

text \<open>The distance of two centres as \<^verbatim>\<open>isOverlapping\<close> computes it in double precision.\<close>

definition distance_fl :: "circle \<Rightarrow> circle \<Rightarrow> real" where
  "distance_fl c1 c2 =
     (let dx = double (circle_x c1 - circle_x c2); dy = double (circle_y c1 - circle_y c2)
      in double (sqrt (double (double (dx * dx) + double (dy * dy)))))"

text \<open>
  One \<^verbatim>\<open>Math.pow\<close>, the correctly rounded one, and a stream of draws that puts the
  second circle at a distance just below 2 from the first.
\<close>

definition js_pow :: "real \<Rightarrow> real \<Rightarrow> real" where
  "js_pow a b = double (a powr b)"

definition close_rnd :: "nat \<Rightarrow> real" where
  "close_rnd n =
     (if n = 4 then 2431828337024643 / 2 ^ 52
      else if n = 5 then 4516497092250011 / 2 ^ 53
      else if n mod 3 = 0 then 0 else 1 / 2)"

text \<open>Pairwise separation of a list of circles in double precision.\<close>

definition separated_fl :: "circle list \<Rightarrow> bool" where
  "separated_fl cs = (\<forall>i<length cs. \<forall>j<length cs. i \<noteq> j \<longrightarrow>
      distance_fl (cs ! i) (cs ! j) \<ge> double (circle_radius (cs ! i) + circle_radius (cs ! j)))"


section \<open>Scalar noise field (sketch.js, noise)\<close>

text \<open>
  The operator \<^verbatim>\<open>&\<close> converts both operands to 32-bit signed integers and combines
  their bits.  It is applied to integral values only.
\<close>

definition to_int32 :: "int \<Rightarrow> int" where
  "to_int32 n = (n + 2 ^ 31) mod 2 ^ 32 - 2 ^ 31"

definition bit_and :: "int \<Rightarrow> int \<Rightarrow> int" where
  "bit_and a b = to_int32 a AND to_int32 b"

definition fade :: "real \<Rightarrow> real" where
  "fade t = t * t * t * (t * (t * 6 - 15) + 10)"

definition lerp :: "real \<Rightarrow> real \<Rightarrow> real \<Rightarrow> real" where
  "lerp t a b = a + t * (b - a)"

definition grad :: "int \<Rightarrow> real \<Rightarrow> real \<Rightarrow> real \<Rightarrow> real" where
  "grad hash x y z =
     (let h = bit_and hash 15;
          u = (if h < 8 then x else y);
          v = (if h < 4 then y else if h = 12 \<or> h = 14 then x else z)
      in (if bit_and h 1 = 0 then u else - u) + (if bit_and h 2 = 0 then v else - v))"

text \<open>
  The table \<^verbatim>\<open>p\<close> has 512 entries, filled by
  \<^verbatim>\<open>p[i] = p[i + 256] = permutation[i]\<close> for \<open>i < 256\<close>.
\<close>

definition table :: "int list \<Rightarrow> int list" where
  "table permutation = map (\<lambda>i. permutation ! (i mod 256)) [0..<512]"

text \<open>
  \<^verbatim>\<open>noise(x, y, z)\<close> over a table \<open>p\<close>.  The source overwrites \<open>x\<close>, \<open>y\<close>, \<open>z\<close> by
  their fractional parts, here \<open>xf\<close>, \<open>yf\<close>, \<open>zf\<close>.  Every read of the table is at an
  index between 0 and 511.
\<close>

definition noise :: "int list \<Rightarrow> real \<Rightarrow> real \<Rightarrow> real \<Rightarrow> real" where
  "noise p x y z =
     (let X = bit_and \<lfloor>x\<rfloor> 255;
          Y = bit_and \<lfloor>y\<rfloor> 255;
          Z = bit_and \<lfloor>z\<rfloor> 255;
          xf = x - of_int \<lfloor>x\<rfloor>;
          yf = y - of_int \<lfloor>y\<rfloor>;
          zf = z - of_int \<lfloor>z\<rfloor>;
          u = fade xf;
          v = fade yf;
          w = fade zf;
          A = bit_and (p ! nat X + Y) 255;
          B = bit_and (p ! nat (X + 1) + Y) 255;
          AA = bit_and (p ! nat A + Z) 255;
          BA = bit_and (p ! nat B + Z) 255;
          AB = bit_and (p ! nat (A + 1) + Z) 255;
          BB = bit_and (p ! nat (B + 1) + Z) 255
      in lerp w
           (lerp v (lerp u (grad (p ! nat AA) xf yf zf) (grad (p ! nat BA) (xf - 1) yf zf))
                   (lerp u (grad (p ! nat AB) xf (yf - 1) zf)
                           (grad (p ! nat BB) (xf - 1) (yf - 1) zf)))
           (lerp v (lerp u (grad (p ! nat (AA + 1)) xf yf (zf - 1))
                           (grad (p ! nat (BA + 1)) (xf - 1) yf (zf - 1)))
                   (lerp u (grad (p ! nat (AB + 1)) xf (yf - 1) (zf - 1))
                           (grad (p ! nat (BB + 1)) (xf - 1) (yf - 1) (zf - 1)))))"

text \<open>The initial contents of \<^verbatim>\<open>permutation\<close> (line 85).\<close>

definition permutation :: "int list" where
  "permutation =
     [151, 160, 137, 91, 90, 15, 131, 13, 201, 95, 96, 53, 194, 233, 7, 225,
      140, 36, 103, 30, 69, 142, 8, 99, 37, 240, 21, 10, 23, 190, 6, 148,
      247, 120, 234, 75, 0, 26, 197, 62, 94, 252, 219, 203, 117, 35, 11, 32,
      57, 177, 33, 88, 237, 149, 56, 87, 174, 20, 125, 136, 171, 168, 68, 175,
      74, 165, 71, 134, 139, 48, 27, 166, 77, 146, 158, 231, 83, 111, 229, 122,
      60, 211, 133, 230, 220, 105, 92, 41, 55, 46, 245, 40, 244, 102, 143, 54,
      65, 25, 63, 161, 1, 216, 80, 73, 209, 76, 132, 187, 208, 89, 18, 169,
      200, 196, 135, 130, 116, 188, 159, 86, 164, 100, 109, 198, 173, 186, 3, 64,
      52, 217, 226, 250, 124, 123, 5, 202, 38, 147, 118, 126, 255, 82, 85, 212,
      207, 206, 59, 227, 47, 16, 58, 17, 182, 189, 28, 42, 223, 183, 170, 213,
      119, 248, 152, 2, 44, 154, 163, 70, 221, 153, 101, 155, 167, 43, 172, 9,
      129, 22, 39, 253, 19, 98, 108, 110, 79, 113, 224, 232, 178, 185, 112, 104,
      218, 246, 97, 228, 251, 34, 242, 193, 238, 210, 144, 12, 191, 179, 162, 241,
      81, 51, 145, 235, 249, 14, 239, 107, 49, 192, 214, 31, 181, 199, 106, 157,
      184, 84, 204, 176, 115, 121, 50, 45, 127, 4, 150, 254, 138, 236, 205, 93,
      222, 114, 67, 29, 24, 72, 243, 141, 128, 195, 78, 66, 215, 61, 156, 180]"

text \<open>
  The same functions in double precision: the result of every addition, subtraction and
  multiplication is rounded; \<^verbatim>\<open>Math.floor\<close>, the operator \<^verbatim>\<open>&\<close>, the negation and the
  constants 6, 15, 10 and 1 are exact.
\<close>

definition fade_fl :: "real \<Rightarrow> real" where
  "fade_fl t =
     double (double (double (t * t) * t) * double (double (t * double (double (t * 6) - 15)) + 10))"

definition lerp_fl :: "real \<Rightarrow> real \<Rightarrow> real \<Rightarrow> real" where
  "lerp_fl t a b = double (a + double (t * double (b - a)))"

definition grad_fl :: "int \<Rightarrow> real \<Rightarrow> real \<Rightarrow> real \<Rightarrow> real" where
  "grad_fl hash x y z =
     (let h = bit_and hash 15;
          u = (if h < 8 then x else y);
          v = (if h < 4 then y else if h = 12 \<or> h = 14 then x else z)
      in double ((if bit_and h 1 = 0 then u else - u) + (if bit_and h 2 = 0 then v else - v)))"

definition noise_fl :: "int list \<Rightarrow> real \<Rightarrow> real \<Rightarrow> real \<Rightarrow> real" where
  "noise_fl p x y z =
     (let X = bit_and \<lfloor>x\<rfloor> 255;
          Y = bit_and \<lfloor>y\<rfloor> 255;
          Z = bit_and \<lfloor>z\<rfloor> 255;
          xf = double (x - of_int \<lfloor>x\<rfloor>);
          yf = double (y - of_int \<lfloor>y\<rfloor>);
          zf = double (z - of_int \<lfloor>z\<rfloor>);
          u = fade_fl xf;
          v = fade_fl yf;
          w = fade_fl zf;
          A = bit_and (p ! nat X + Y) 255;
          B = bit_and (p ! nat (X + 1) + Y) 255;
          AA = bit_and (p ! nat A + Z) 255;
          BA = bit_and (p ! nat B + Z) 255;
          AB = bit_and (p ! nat (A + 1) + Z) 255;
          BB = bit_and (p ! nat (B + 1) + Z) 255
      in lerp_fl w
           (lerp_fl v
              (lerp_fl u (grad_fl (p ! nat AA) xf yf zf)
                         (grad_fl (p ! nat BA) (double (xf - 1)) yf zf))
              (lerp_fl u (grad_fl (p ! nat AB) xf (double (yf - 1)) zf)
                         (grad_fl (p ! nat BB) (double (xf - 1)) (double (yf - 1)) zf)))
           (lerp_fl v
              (lerp_fl u (grad_fl (p ! nat (AA + 1)) xf yf (double (zf - 1)))
                         (grad_fl (p ! nat (BA + 1)) (double (xf - 1)) yf (double (zf - 1))))
              (lerp_fl u (grad_fl (p ! nat (AB + 1)) xf (double (yf - 1)) (double (zf - 1)))
                         (grad_fl (p ! nat (BB + 1)) (double (xf - 1)) (double (yf - 1))
                            (double (zf - 1))))))"


section \<open>Frame extrusion generator (sketch.js, createCube, drawCubeFrame, buildSculpture)\<close>

text \<open>
  The parameters \<^verbatim>\<open>size\<close> and \<^verbatim>\<open>height\<close> of the source are written \<open>size'\<close> and
  \<open>height'\<close>.  A cube made by \<^verbatim>\<open>createCube\<close>: the box geometry
  \<^verbatim>\<open>BoxGeometry(safeSize, safeSize, safeHeight)\<close>, the position and the material.
\<close>

record box =
  box_width :: real
  box_height :: real
  box_depth :: real
  box_x :: real
  box_y :: real
  box_z :: real
  box_dark :: bool

definition createCube :: "real \<Rightarrow> real \<Rightarrow> real \<Rightarrow> real \<Rightarrow> real \<Rightarrow> bool \<Rightarrow> box" where
  "createCube x y z size' height' isDark =
     (let safeSize = max size' 0.01;
          safeHeight = max height' 0.01
      in \<lparr>box_width = safeSize, box_height = safeSize, box_depth = safeHeight,
          box_x = x, box_y = y, box_z = z, box_dark = isDark\<rparr>)"

text \<open>
  The choice of lines 152-162: offset \<open>zPos\<close>, \<open>height\<close> and class from the raw sample
  \<open>noiseVal\<close>, the normalised sample \<open>nF\<close> and the threshold.
\<close>

definition extrusion :: "real \<Rightarrow> real \<Rightarrow> real \<Rightarrow> real \<Rightarrow> real \<times> real \<times> bool" where
  "extrusion lightDarkThreshold size' nF noiseVal =
     (if noiseVal > lightDarkThreshold
      then (size' / 30 * 15 * nF, size' / 30 * 30 * nF, False)
      else (size' / 30 * 5 * nF, size' / 30 * 10 * nF, True))"

text \<open>The cube of one boundary point (lines 143-164); \<open>p\<close> is the noise table.\<close>

definition frame_cell :: "int list \<Rightarrow> real \<Rightarrow> real \<Rightarrow> real \<Rightarrow> real \<Rightarrow> box" where
  "frame_cell p lightDarkThreshold size' x y =
     (let absX = \<bar>x\<bar>;
          absY = \<bar>y\<bar>;
          nF = (noise p (absX / 10) (absY / 10) size' + 1) / 2;
          noiseVal = noise p (absX * 0.05) (absY * 0.05) 0
      in case extrusion lightDarkThreshold size' nF noiseVal of
           (zPos, height', isDark) \<Rightarrow> createCube x y zPos size' height' isDark)"

text \<open>
  The two samples of a boundary point (lines 147 and 148): the normalised one, taken at
  height \<^verbatim>\<open>size\<close>, and the raw one, taken at the default height 0.
\<close>

definition normalised_sample :: "int list \<Rightarrow> real \<Rightarrow> real \<Rightarrow> real \<Rightarrow> real" where
  "normalised_sample p size' x y = (noise p (\<bar>x\<bar> / 10) (\<bar>y\<bar> / 10) size' + 1) / 2"

definition raw_sample :: "int list \<Rightarrow> real \<Rightarrow> real \<Rightarrow> real" where
  "raw_sample p x y = noise p (\<bar>x\<bar> * 0.05) (\<bar>y\<bar> * 0.05) 0"

record frame =
  lightCubes :: "box list"
  darkCubes :: "box list"

definition push_cube :: "box \<Rightarrow> frame \<Rightarrow> frame" where
  "push_cube cube f =
     (if box_dark cube then f\<lparr>darkCubes := darkCubes f @ [cube]\<rparr>
      else f\<lparr>lightCubes := lightCubes f @ [cube]\<rparr>)"

text \<open>
  The loop \<^verbatim>\<open>for (let v = lo; v <= hi; v += step)\<close>, which does not end when the step
  is not positive.  \<open>None\<close> stands for a loop that does not end.
\<close>

partial_function (option) for_loop ::
  "real \<Rightarrow> real \<Rightarrow> real \<Rightarrow> (real \<Rightarrow> 's \<Rightarrow> 's option) \<Rightarrow> 's \<Rightarrow> 's option" where
  "for_loop v hi step body s =
     (if v \<le> hi then Option.bind (body v s) (\<lambda>s'. for_loop (v + step) hi step body s')
      else Some s)"

text \<open>The body of the two nested loops of \<^verbatim>\<open>drawCubeFrame\<close> (lines 140-171).\<close>

definition frame_point :: "int list \<Rightarrow> real \<Rightarrow> real \<Rightarrow> real \<Rightarrow> real \<Rightarrow> real \<Rightarrow> frame \<Rightarrow> frame" where
  "frame_point p lightDarkThreshold side size' x y f =
     (if x = - side / 2 \<or> x = side / 2 \<or> y = - side / 2 \<or> y = side / 2
      then push_cube (frame_cell p lightDarkThreshold size' x y) f
      else f)"

definition drawCubeFrame :: "int list \<Rightarrow> real \<Rightarrow> real \<Rightarrow> real \<Rightarrow> frame option" where
  "drawCubeFrame p lightDarkThreshold side size' =
     for_loop (- side / 2) (side / 2) size'
       (\<lambda>x. for_loop (- side / 2) (side / 2) size'
          (\<lambda>y f. Some (frame_point p lightDarkThreshold side size' x y f)))
       \<lparr>lightCubes = [], darkCubes = []\<rparr>"

text \<open>
  The loop of \<^verbatim>\<open>buildSculpture\<close> that collects the frames (lines 198-206):
  \<^verbatim>\<open>for (let i = iSet; i <= 65; i += iPlus)\<close>.
\<close>

definition collect_frame :: "int list \<Rightarrow> real \<Rightarrow> real \<Rightarrow> frame \<Rightarrow> frame option" where
  "collect_frame p lightDarkThreshold i all =
     Option.bind (drawCubeFrame p lightDarkThreshold (i * 4) i)
       (\<lambda>f. Some \<lparr>lightCubes = lightCubes all @ lightCubes f,
                   darkCubes = darkCubes all @ darkCubes f\<rparr>)"

definition collect_frames :: "int list \<Rightarrow> real \<Rightarrow> real \<Rightarrow> real \<Rightarrow> frame option" where
  "collect_frames p lightDarkThreshold iSet iPlus =
     for_loop iSet 65 iPlus (collect_frame p lightDarkThreshold)
       \<lparr>lightCubes = [], darkCubes = []\<rparr>"

text \<open>
  The values a loop \<^verbatim>\<open>for (let v = lo; v <= hi; v += step)\<close> with a positive step goes
  through, and the run of a loop body over a list of values.
\<close>

definition ticks :: "real \<Rightarrow> real \<Rightarrow> real \<Rightarrow> real list" where
  "ticks lo hi step =
     map (\<lambda>k. lo + real k * step) [0..<(if lo \<le> hi then nat \<lfloor>(hi - lo) / step\<rfloor> + 1 else 0)]"

fun run :: "('a \<Rightarrow> 's \<Rightarrow> 's option) \<Rightarrow> 'a list \<Rightarrow> 's \<Rightarrow> 's option" where
  "run body [] s = Some s"
| "run body (v # vs) s = Option.bind (body v s) (run body vs)"

text \<open>The positions of the cubes of a frame.\<close>

definition frame_positions :: "frame \<Rightarrow> (real \<times> real) set" where
  "frame_positions f = (\<lambda>c. (box_x c, box_y c)) ` set (lightCubes f @ darkCubes f)"

text \<open>The number of cubes of a frame, the edge test of line 141, and the five lattice
  coordinates of the frame of size \<open>i\<close>.\<close>

definition cube_count :: "frame \<Rightarrow> nat" where
  "cube_count f = length (lightCubes f) + length (darkCubes f)"

definition on_edge :: "real \<Rightarrow> real \<Rightarrow> real \<Rightarrow> bool" where
  "on_edge side x y = (x = - side / 2 \<or> x = side / 2 \<or> y = - side / 2 \<or> y = side / 2)"

definition frame_lattice :: "real \<Rightarrow> real list" where
  "frame_lattice i = [- 2 * i, - i, 0, i, 2 * i]"

section \<open>Lattice mesh synthesizer (class ParametricDiamond)\<close>

text \<open>
  \<^verbatim>\<open>ParametricDiamond\<close> divides by values that can be zero, so its numbers are
  modelled with the special values of JavaScript numbers: a finite real number (without
  rounding and without overflow), \<open>+Infinity\<close>, \<open>-Infinity\<close> or \<open>NaN\<close>.  The sign
  of a zero is not modelled: a zero divisor counts as \<open>+0\<close>.  The operations below are
  the ones the class uses.
\<close>

datatype jsnum = Fin real | PosInf | NegInf | NaN

fun js_neg :: "jsnum \<Rightarrow> jsnum" where
  "js_neg (Fin a) = Fin (- a)"
| "js_neg PosInf = NegInf"
| "js_neg NegInf = PosInf"
| "js_neg NaN = NaN"

fun js_add :: "jsnum \<Rightarrow> jsnum \<Rightarrow> jsnum" where
  "js_add (Fin a) (Fin b) = Fin (a + b)"
| "js_add NaN b = NaN"
| "js_add a NaN = NaN"
| "js_add PosInf NegInf = NaN"
| "js_add NegInf PosInf = NaN"
| "js_add PosInf b = PosInf"
| "js_add a PosInf = PosInf"
| "js_add NegInf b = NegInf"
| "js_add a NegInf = NegInf"

definition js_sub :: "jsnum \<Rightarrow> jsnum \<Rightarrow> jsnum" where
  "js_sub a b = js_add a (js_neg b)"

fun js_mul :: "jsnum \<Rightarrow> jsnum \<Rightarrow> jsnum" where
  "js_mul (Fin a) (Fin b) = Fin (a * b)"
| "js_mul NaN b = NaN"
| "js_mul a NaN = NaN"
| "js_mul (Fin a) PosInf = (if a = 0 then NaN else if 0 < a then PosInf else NegInf)"
| "js_mul (Fin a) NegInf = (if a = 0 then NaN else if 0 < a then NegInf else PosInf)"
| "js_mul PosInf (Fin b) = (if b = 0 then NaN else if 0 < b then PosInf else NegInf)"
| "js_mul NegInf (Fin b) = (if b = 0 then NaN else if 0 < b then NegInf else PosInf)"
| "js_mul PosInf PosInf = PosInf"
| "js_mul PosInf NegInf = NegInf"
| "js_mul NegInf PosInf = NegInf"
| "js_mul NegInf NegInf = PosInf"

fun js_div :: "jsnum \<Rightarrow> jsnum \<Rightarrow> jsnum" where
  "js_div (Fin a) (Fin b) =
     (if b \<noteq> 0 then Fin (a / b)
      else if a = 0 then NaN else if 0 < a then PosInf else NegInf)"
| "js_div NaN b = NaN"
| "js_div a NaN = NaN"
| "js_div (Fin a) PosInf = Fin 0"
| "js_div (Fin a) NegInf = Fin 0"
| "js_div PosInf (Fin b) = (if 0 \<le> b then PosInf else NegInf)"
| "js_div NegInf (Fin b) = (if 0 \<le> b then NegInf else PosInf)"
| "js_div a b = NaN"

fun js_le :: "jsnum \<Rightarrow> jsnum \<Rightarrow> bool" where
  "js_le (Fin a) (Fin b) = (a \<le> b)"
| "js_le NaN b = False"
| "js_le a NaN = False"
| "js_le NegInf b = True"
| "js_le a PosInf = True"
| "js_le a b = False"

fun js_lt :: "jsnum \<Rightarrow> jsnum \<Rightarrow> bool" where
  "js_lt (Fin a) (Fin b) = (a < b)"
| "js_lt NaN b = False"
| "js_lt a NaN = False"
| "js_lt PosInf b = False"
| "js_lt a NegInf = False"
| "js_lt a b = True"

text \<open>\<^verbatim>\<open>Math.min\<close> and \<^verbatim>\<open>Math.max\<close> of two numbers.\<close>

fun js_min :: "jsnum \<Rightarrow> jsnum \<Rightarrow> jsnum" where
  "js_min NaN b = NaN"
| "js_min a NaN = NaN"
| "js_min a b = (if js_le a b then a else b)"

fun js_max :: "jsnum \<Rightarrow> jsnum \<Rightarrow> jsnum" where
  "js_max NaN b = NaN"
| "js_max a NaN = NaN"
| "js_max a b = (if js_le a b then b else a)"

fun js_ceil :: "jsnum \<Rightarrow> jsnum" where
  "js_ceil (Fin a) = Fin (of_int \<lceil>a\<rceil>)"
| "js_ceil a = a"

fun js_floor :: "jsnum \<Rightarrow> jsnum" where
  "js_floor (Fin a) = Fin (of_int \<lfloor>a\<rfloor>)"
| "js_floor a = a"

fun js_cos :: "jsnum \<Rightarrow> jsnum" where
  "js_cos (Fin a) = Fin (cos a)"
| "js_cos a = NaN"

fun js_sin :: "jsnum \<Rightarrow> jsnum" where
  "js_sin (Fin a) = Fin (sin a)"
| "js_sin a = NaN"

fun js_sqrt :: "jsnum \<Rightarrow> jsnum" where
  "js_sqrt (Fin a) = (if a < 0 then NaN else Fin (sqrt a))"
| "js_sqrt PosInf = PosInf"
| "js_sqrt a = NaN"

record diamond =
  radius :: jsnum
  height :: jsnum
  layers :: jsnum
  cubeSize :: jsnum

definition ParametricDiamond :: "jsnum \<Rightarrow> jsnum \<Rightarrow> jsnum \<Rightarrow> diamond" where
  "ParametricDiamond r h l =
     \<lparr>radius = r, height = h, layers = l,
      cubeSize = js_div (js_min r h) (js_mul l (Fin 2))\<rparr>"

text \<open>
  The two arrays of \<^verbatim>\<open>createGeometry\<close>.  \<open>positions\<close> is flat, three numbers for
  each vertex.
\<close>

record mesh =
  positions :: "jsnum list"
  indices :: "nat list"

text \<open>
  \<^verbatim>\<open>addCube\<close>.  The length of \<open>positions\<close> is a multiple of 3 at every call, so
  \<^verbatim>\<open>positions.length / 3\<close> is the integer quotient.
\<close>

definition addCube :: "mesh \<Rightarrow> jsnum \<Rightarrow> jsnum \<Rightarrow> jsnum \<Rightarrow> jsnum \<Rightarrow> mesh" where
  "addCube m x y z size' =
     (let startIdx = length (positions m) div 3;
          s = js_div size' (Fin 2);
          vertices =
            [[js_sub x s, js_sub y s, js_sub z s], [js_add x s, js_sub y s, js_sub z s],
             [js_add x s, js_add y s, js_sub z s], [js_sub x s, js_add y s, js_sub z s],
             [js_sub x s, js_sub y s, js_add z s], [js_add x s, js_sub y s, js_add z s],
             [js_add x s, js_add y s, js_add z s], [js_sub x s, js_add y s, js_add z s]];
          faces =
            [[0, 1, 2], [0, 2, 3], [5, 4, 7], [5, 7, 6],
             [4, 0, 3], [4, 3, 7], [1, 5, 6], [1, 6, 2],
             [3, 2, 6], [3, 6, 7], [4, 5, 1], [4, 1, 0]]
      in \<lparr>positions = positions m @ concat vertices,
          indices = indices m @
            concat (map (\<lambda>face. [startIdx + face ! 0, startIdx + face ! 1, startIdx + face ! 2])
                      faces)\<rparr>)"

text \<open>The body of the innermost loop (lines 131-138), for cube \<open>i\<close> of a ring.\<close>

definition place_cube :: "diamond \<Rightarrow> jsnum \<Rightarrow> jsnum \<Rightarrow> jsnum \<Rightarrow> jsnum \<Rightarrow> nat \<Rightarrow> mesh \<Rightarrow> mesh" where
  "place_cube d y maxRadius' ringRadius numCubes i m =
     (let angle = js_mul (js_mul (js_div (Fin (real i)) numCubes) (Fin pi)) (Fin 2);
          x = js_mul (js_cos angle) ringRadius;
          z = js_mul (js_sin angle) ringRadius;
          dist = js_sqrt (js_add (js_mul x x) (js_mul z z))
      in if js_le dist maxRadius'
         then addCube m x y z (js_mul (cubeSize d) (Fin 0.95))
         else m)"

text \<open>
  The loops of \<^verbatim>\<open>createGeometry\<close>.  Each of them can run forever (an infinite bound,
  a step of zero): \<open>None\<close> stands for a loop that does not end.
\<close>

partial_function (option) cube_loop ::
  "diamond \<Rightarrow> jsnum \<Rightarrow> jsnum \<Rightarrow> jsnum \<Rightarrow> jsnum \<Rightarrow> nat \<Rightarrow> mesh \<Rightarrow> mesh option" where
  "cube_loop d y maxRadius' ringRadius numCubes i m =
     (if js_lt (Fin (real i)) numCubes
      then cube_loop d y maxRadius' ringRadius numCubes (i + 1)
             (place_cube d y maxRadius' ringRadius numCubes i m)
      else Some m)"

text \<open>The values \<open>ringRadius\<close> and \<open>numCubes\<close> of a ring (lines 126-128).\<close>

definition ring_radius :: "diamond \<Rightarrow> nat \<Rightarrow> jsnum" where
  "ring_radius d ring = js_mul (Fin (real ring)) (cubeSize d)"

definition ring_cubes :: "diamond \<Rightarrow> nat \<Rightarrow> jsnum" where
  "ring_cubes d ring =
     (let ringRadius = ring_radius d ring;
          circumference = js_mul (js_mul (Fin 2) (Fin pi)) ringRadius
      in js_max (Fin 1) (js_floor (js_div circumference (cubeSize d))))"

partial_function (option) ring_loop ::
  "diamond \<Rightarrow> jsnum \<Rightarrow> jsnum \<Rightarrow> jsnum \<Rightarrow> nat \<Rightarrow> mesh \<Rightarrow> mesh option" where
  "ring_loop d y maxRadius' numRings ring m =
     (if js_lt (Fin (real ring)) numRings
      then Option.bind
             (cube_loop d y maxRadius' (ring_radius d ring) (ring_cubes d ring) 0 m)
             (\<lambda>m'. ring_loop d y maxRadius' numRings (ring + 1) m')
      else Some m)"

text \<open>The values \<^verbatim>\<open>maxRadius\<close> (written \<open>maxRadius'\<close>) and \<open>numRings\<close> of the slice at \<open>y\<close>
  (lines 116-123).\<close>

definition slice_radius :: "diamond \<Rightarrow> jsnum \<Rightarrow> jsnum \<Rightarrow> jsnum \<Rightarrow> jsnum" where
  "slice_radius d topHeight bottomHeight y =
     (if js_lt (Fin 0) y
      then js_mul (radius d) (js_sub (Fin 1) (js_div y topHeight))
      else js_mul (radius d) (js_add (Fin 1) (js_div y (js_neg bottomHeight))))"

definition slice_rings :: "diamond \<Rightarrow> jsnum \<Rightarrow> jsnum" where
  "slice_rings d maxRadius' = js_ceil (js_div maxRadius' (cubeSize d))"

text \<open>The body of the outer loop: the rings of the slice at \<open>y\<close>.\<close>

definition slice :: "diamond \<Rightarrow> jsnum \<Rightarrow> jsnum \<Rightarrow> jsnum \<Rightarrow> mesh \<Rightarrow> mesh option" where
  "slice d topHeight bottomHeight y m =
     (let maxRadius' = slice_radius d topHeight bottomHeight y;
          numRings = slice_rings d maxRadius'
      in ring_loop d y maxRadius' numRings 0 m)"

partial_function (option) slice_loop ::
  "diamond \<Rightarrow> jsnum \<Rightarrow> jsnum \<Rightarrow> jsnum \<Rightarrow> mesh \<Rightarrow> mesh option" where
  "slice_loop d topHeight bottomHeight y m =
     (if js_le y topHeight
      then Option.bind (slice d topHeight bottomHeight y m)
             (\<lambda>m'. slice_loop d topHeight bottomHeight (js_add y (cubeSize d)) m')
      else Some m)"

definition createGeometry :: "diamond \<Rightarrow> mesh option" where
  "createGeometry d =
     (let topHeight = js_mul (height d) (Fin 0.4);
          bottomHeight = js_neg (height d)
      in slice_loop d topHeight bottomHeight bottomHeight \<lparr>positions = [], indices = []\<rparr>)"





section \<open>Properties of the rounding\<close>

lemma round_even_eval:
  assumes "\<bar>t - of_int n\<bar> < 1 / 2"
  shows "round_even t = n"
proof -
  have "\<lfloor>t\<rfloor> = n \<and> t - of_int n < 1 / 2 \<or> \<lfloor>t\<rfloor> = n - 1 \<and> 1 / 2 < t - of_int (n - 1)"
  proof (cases "of_int n \<le> t")
    case True
    with assms have "of_int n \<le> t" "t < of_int n + 1" by linarith+
    then have "\<lfloor>t\<rfloor> = n" by (rule floor_unique)
    with assms True show ?thesis by linarith
  next
    case False
    with assms have "of_int (n - 1) \<le> t" "t < of_int (n - 1) + 1" by (simp_all add: abs_if split: if_splits)
    then have "\<lfloor>t\<rfloor> = n - 1" by (rule floor_unique)
    moreover from assms False have "1 / 2 < t - of_int (n - 1)" by (simp add: abs_if split: if_splits)
    ultimately show ?thesis by simp
  qed
  then show ?thesis
  proof
    assume "\<lfloor>t\<rfloor> = n \<and> t - of_int n < 1 / 2"
    then show ?thesis by (simp add: round_even_def)
  next
    assume a: "\<lfloor>t\<rfloor> = n - 1 \<and> 1 / 2 < t - of_int (n - 1)"
    then have "\<not> t - of_int \<lfloor>t\<rfloor> < 1 / 2" by simp
    with a show ?thesis by (simp add: round_even_def)
  qed
qed

lemma round_even_int: "round_even (of_int n) = n"
  by (rule round_even_eval) simp

lemma round_even_err: "\<bar>of_int (round_even t) - t\<bar> \<le> 1 / 2"
  unfolding round_even_def by (auto simp: abs_if) linarith+

lemma round_even_mono:
  assumes "s \<le> t"
  shows "round_even s \<le> round_even t"
proof (cases "\<lfloor>s\<rfloor> = \<lfloor>t\<rfloor>")
  case True
  with assms show ?thesis unfolding round_even_def by auto
next
  case False
  with assms have "\<lfloor>s\<rfloor> < \<lfloor>t\<rfloor>" using floor_mono [OF assms] by linarith
  moreover have "round_even s \<le> \<lfloor>s\<rfloor> + 1" unfolding round_even_def by auto
  moreover have "\<lfloor>t\<rfloor> \<le> round_even t" unfolding round_even_def by auto
  ultimately show ?thesis by linarith
qed

lemma round_even_neg: "round_even (- t) = - round_even t"
proof (cases "t = of_int \<lfloor>t\<rfloor>")
  case True
  then obtain n where "t = of_int n" ..
  then have "round_even (- t) = round_even (of_int (- n))" by simp
  also have "\<dots> = - n" by (rule round_even_int)
  finally show ?thesis using \<open>t = of_int n\<close> by (simp add: round_even_int)
next
  case False
  then have lt: "of_int \<lfloor>t\<rfloor> < t" using of_int_floor_le [of t] by linarith
  have fl: "\<lfloor>- t\<rfloor> = - \<lfloor>t\<rfloor> - 1"
    using lt by (simp add: floor_eq_iff) linarith
  define r where "r = t - of_int \<lfloor>t\<rfloor>"
  have r: "0 < r" "r < 1" unfolding r_def using lt by linarith+
  have nr: "- t - of_int (- \<lfloor>t\<rfloor> - 1) = 1 - r" unfolding r_def by simp
  consider "r < 1 / 2" | "1 / 2 < r" | "r = 1 / 2" by linarith
  then show ?thesis
  proof cases
    case 1
    then show ?thesis unfolding round_even_def fl nr r_def [symmetric] by simp
  next
    case 2
    then show ?thesis unfolding round_even_def fl nr r_def [symmetric] by simp
  next
    case 3
    then show ?thesis unfolding round_even_def fl nr r_def [symmetric] by simp
  qed
qed

lemma binade_eq:
  assumes "2 powi e \<le> \<bar>t\<bar>" and "\<bar>t\<bar> < 2 powi (e + 1)"
  shows "\<lfloor>log 2 \<bar>t\<bar>\<rfloor> = e"
proof -
  have "(0::real) < 2 powi e" by simp
  with assms(1) have pos: "0 < \<bar>t\<bar>" by linarith
  have "(2::real) powr real_of_int e \<le> \<bar>t\<bar> \<and> \<bar>t\<bar> < 2 powr real_of_int (e + 1)"
    using assms by (simp only: powr_real_of_int' [of 2, simplified])
  then show ?thesis using floor_log_eq_powr_iff [OF pos, of 2 e] by simp
qed

lemma binade_bounds:
  assumes "t \<noteq> 0"
  shows "2 powi \<lfloor>log 2 \<bar>t\<bar>\<rfloor> \<le> \<bar>t\<bar>" and "\<bar>t\<bar> < 2 powi (\<lfloor>log 2 \<bar>t\<bar>\<rfloor> + 1)"
proof -
  from assms have pos: "0 < \<bar>t\<bar>" by simp
  have "(2::real) powr real_of_int \<lfloor>log 2 \<bar>t\<bar>\<rfloor> \<le> \<bar>t\<bar>
      \<and> \<bar>t\<bar> < 2 powr real_of_int (\<lfloor>log 2 \<bar>t\<bar>\<rfloor> + 1)"
    using floor_log_eq_powr_iff [OF pos, of 2 "\<lfloor>log 2 \<bar>t\<bar>\<rfloor>"] by simp
  then show "2 powi \<lfloor>log 2 \<bar>t\<bar>\<rfloor> \<le> \<bar>t\<bar>" and "\<bar>t\<bar> < 2 powi (\<lfloor>log 2 \<bar>t\<bar>\<rfloor> + 1)"
    by (simp_all only: powr_real_of_int' [of 2, simplified])
qed

lemma round_to_eval:
  assumes "2 powi e \<le> \<bar>t\<bar>" and "\<bar>t\<bar> < 2 powi (e + 1)"
    and "round_even (t / 2 powi (e - int prec + 1)) = n"
  shows "round_to prec t = of_int n * 2 powi (e - int prec + 1)"
proof -
  have "(0::real) < 2 powi e" by simp
  with assms(1) have "0 < \<bar>t\<bar>" by linarith
  then have "t \<noteq> 0" by simp
  then show ?thesis
    unfolding round_to_def binade_eq [OF assms(1,2)] using assms(3) by simp
qed

lemma round_to_zero: "round_to prec 0 = 0"
  by (simp add: round_to_def)

lemma round_to_neg: "round_to prec (- t) = - round_to prec t"
  by (simp add: round_to_def round_even_neg)

lemma round_to_scale: "round_to prec (t * 2 powi k) = round_to prec t * 2 powi k"
proof (cases "t = 0")
  case True
  then show ?thesis by (simp add: round_to_def)
next
  case False
  define e where "e = \<lfloor>log 2 \<bar>t\<bar>\<rfloor>"
  have b: "2 powi e \<le> \<bar>t\<bar>" "\<bar>t\<bar> < 2 powi (e + 1)"
    unfolding e_def using binade_bounds [OF False] by simp_all
  have k: "(0::real) < 2 powi k" by simp
  have b1: "2 powi (e + k) \<le> \<bar>t * 2 powi k\<bar>"
    using b(1) k by (simp add: power_int_add abs_mult)
  have b2: "\<bar>t * 2 powi k\<bar> < 2 powi (e + k + 1)"
  proof -
    have "\<bar>t\<bar> * 2 powi k < 2 powi (e + 1) * 2 powi k" using b(2) k by simp
    also have "\<dots> = 2 powi (e + k + 1)" by (simp add: power_int_add)
    finally show ?thesis using k by (simp add: abs_mult)
  qed
  have sc: "t * 2 powi k / 2 powi (e + k - int prec + 1) = t / 2 powi (e - int prec + 1)"
  proof -
    have "(2::real) powi (e + k - int prec + 1) = 2 powi (e - int prec + 1) * 2 powi k"
      by (simp add: power_int_add [symmetric] algebra_simps)
    then show ?thesis using k by simp
  qed
  have "round_to prec (t * 2 powi k)
      = of_int (round_even (t / 2 powi (e - int prec + 1))) * 2 powi (e + k - int prec + 1)"
    by (rule round_to_eval [OF b1 b2]) (simp only: sc)
  also have "(2::real) powi (e + k - int prec + 1) = 2 powi (e - int prec + 1) * 2 powi k"
    by (simp add: power_int_add [symmetric] algebra_simps)
  also have "of_int (round_even (t / 2 powi (e - int prec + 1))) * (2 powi (e - int prec + 1) * 2 powi k)
      = round_to prec t * 2 powi k"
    using round_to_eval [OF b refl, of prec] by simp
  finally show ?thesis .
qed

lemma round_to_binade:
  assumes "0 < prec" and "2 powi e \<le> t" and "t < 2 powi (e + 1)"
  shows "2 powi e \<le> round_to prec t" and "round_to prec t \<le> 2 powi (e + 1)"
proof -
  define c where "c = e - int prec + 1"
  have c: "(0::real) < 2 powi c" by simp
  have "(0::real) < 2 powi e" by simp
  with assms(2) have t: "0 < t" by linarith
  then have abs: "\<bar>t\<bar> = t" by simp
  have r: "round_to prec t = of_int (round_even (t / 2 powi c)) * 2 powi c"
    unfolding c_def by (rule round_to_eval) (simp_all add: abs assms)
  have lo: "(2::real) powi e = of_int (2 ^ (prec - 1)) * 2 powi c"
  proof -
    have "e = int (prec - 1) + c" using assms(1) by (simp add: c_def)
    then show ?thesis by (simp add: power_int_add)
  qed
  have hi: "(2::real) powi (e + 1) = of_int (2 ^ prec) * 2 powi c"
  proof -
    have "e + 1 = int prec + c" by (simp add: c_def)
    then have "(2::real) powi (e + 1) = 2 powi int prec * 2 powi c" by (simp add: power_int_add)
    then show ?thesis by simp
  qed
  have "of_int (2 ^ (prec - 1)) \<le> t / 2 powi c"
    using assms(2) c unfolding lo by (simp add: field_simps)
  then have "round_even (of_int (2 ^ (prec - 1))) \<le> round_even (t / 2 powi c)"
    by (rule round_even_mono)
  then have "(2::int) ^ (prec - 1) \<le> round_even (t / 2 powi c)"
    by (simp only: round_even_int)
  then have "real_of_int (2 ^ (prec - 1)) \<le> of_int (round_even (t / 2 powi c))"
    by (simp only: of_int_le_iff)
  then show "2 powi e \<le> round_to prec t"
    unfolding lo r using c by (simp only: mult_le_cancel_right_pos)
  have "t / 2 powi c \<le> of_int (2 ^ prec)"
    using assms(3) c unfolding hi by (simp add: field_simps)
  then have "round_even (t / 2 powi c) \<le> round_even (of_int (2 ^ prec))"
    by (rule round_even_mono)
  then have "round_even (t / 2 powi c) \<le> (2::int) ^ prec"
    by (simp only: round_even_int)
  then have "real_of_int (round_even (t / 2 powi c)) \<le> of_int (2 ^ prec)"
    by (simp only: of_int_le_iff)
  then show "round_to prec t \<le> 2 powi (e + 1)"
    unfolding hi r using c by (simp only: mult_le_cancel_right_pos)
qed

lemma round_to_nonneg:
  assumes "0 < prec" and "0 \<le> t"
  shows "0 \<le> round_to prec t"
proof (cases "t = 0")
  case True
  then show ?thesis by (simp add: round_to_zero)
next
  case False
  with assms(2) have abs: "\<bar>t\<bar> = t" by simp
  from binade_bounds [OF False] have "2 powi \<lfloor>log 2 \<bar>t\<bar>\<rfloor> \<le> round_to prec t"
    unfolding abs by (intro round_to_binade(1) [OF assms(1)])
  moreover have "(0::real) < 2 powi \<lfloor>log 2 \<bar>t\<bar>\<rfloor>" by simp
  ultimately show ?thesis by linarith
qed

lemma round_to_mono_pos:
  assumes "0 < prec" and "0 < s" and "s \<le> t"
  shows "round_to prec s \<le> round_to prec t"
proof -
  define es where "es = \<lfloor>log 2 \<bar>s\<bar>\<rfloor>"
  define et where "et = \<lfloor>log 2 \<bar>t\<bar>\<rfloor>"
  from assms have s: "s \<noteq> 0" "\<bar>s\<bar> = s" and t: "t \<noteq> 0" "\<bar>t\<bar> = t" by simp_all
  have bs: "2 powi es \<le> s" "s < 2 powi (es + 1)"
    using binade_bounds [OF s(1)] unfolding es_def s(2) by simp_all
  have bt: "2 powi et \<le> t" "t < 2 powi (et + 1)"
    using binade_bounds [OF t(1)] unfolding et_def t(2) by simp_all
  have "log 2 s \<le> log 2 t" using assms by simp
  then have le: "es \<le> et" unfolding es_def et_def s(2) t(2) by (rule floor_mono)
  show ?thesis
  proof (cases "es = et")
    case True
    define c where "c = et - int prec + 1"
    have c: "(0::real) < 2 powi c" by simp
    have rs: "round_to prec s = of_int (round_even (s / 2 powi c)) * 2 powi c"
      unfolding c_def using bs by (intro round_to_eval) (simp_all add: s(2) True)
    have rt: "round_to prec t = of_int (round_even (t / 2 powi c)) * 2 powi c"
      unfolding c_def using bt by (intro round_to_eval) (simp_all add: t(2))
    have "s / 2 powi c \<le> t / 2 powi c" using assms(3) c by (simp add: divide_right_mono)
    then have "round_even (s / 2 powi c) \<le> round_even (t / 2 powi c)" by (rule round_even_mono)
    then have "real_of_int (round_even (s / 2 powi c)) \<le> of_int (round_even (t / 2 powi c))"
      by (simp only: of_int_le_iff)
    then show ?thesis unfolding rs rt using c by (simp only: mult_le_cancel_right_pos)
  next
    case False
    with le have "es + 1 \<le> et" by simp
    then have "(2::real) powi (es + 1) \<le> 2 powi et" by (intro power_int_increasing) simp_all
    moreover have "round_to prec s \<le> 2 powi (es + 1)" by (rule round_to_binade(2) [OF assms(1) bs])
    moreover have "2 powi et \<le> round_to prec t" by (rule round_to_binade(1) [OF assms(1) bt])
    ultimately show ?thesis by linarith
  qed
qed

lemma round_to_mono:
  assumes "0 < prec" and "s \<le> t"
  shows "round_to prec s \<le> round_to prec t"
proof -
  consider "0 < s" | "s \<le> 0" "0 \<le> t" | "t < 0" using assms(2) by linarith
  then show ?thesis
  proof cases
    case 1
    then show ?thesis using assms by (intro round_to_mono_pos)
  next
    case 2
    have "0 \<le> round_to prec (- s)" using 2(1) by (intro round_to_nonneg [OF assms(1)]) simp
    then have "round_to prec s \<le> 0" by (simp add: round_to_neg)
    moreover have "0 \<le> round_to prec t" using 2(2) by (intro round_to_nonneg [OF assms(1)])
    ultimately show ?thesis by linarith
  next
    case 3
    have "round_to prec (- t) \<le> round_to prec (- s)" using 3 assms by (intro round_to_mono_pos) simp_all
    then show ?thesis by (simp add: round_to_neg)
  qed
qed

lemma two_powi_add: "(2::real) powi (a + b) = 2 powi a * 2 powi b"
  by (simp add: power_int_add)

lemma round_to_int:
  assumes "\<bar>m\<bar> < 2 ^ prec"
  shows "round_to prec (of_int m) = of_int m"
proof (cases "m = 0")
  case True
  then show ?thesis by (simp add: round_to_zero)
next
  case False
  define t where "t = real_of_int m"
  define e where "e = \<lfloor>log 2 \<bar>t\<bar>\<rfloor>"
  have t0: "t \<noteq> 0" using False by (simp add: t_def)
  have b: "2 powi e \<le> \<bar>t\<bar>" "\<bar>t\<bar> < 2 powi (e + 1)"
    unfolding e_def using binade_bounds [OF t0] by simp_all
  have "1 \<le> \<bar>m\<bar>" using False by simp
  then have one: "1 \<le> \<bar>t\<bar>" unfolding t_def by (metis of_int_1_le_iff of_int_abs)
  have "\<bar>t\<bar> < 2 powi int prec"
  proof -
    have "real_of_int \<bar>m\<bar> < real_of_int (2 ^ prec)" using assms by (simp only: of_int_less_iff)
    then show ?thesis by (simp add: t_def)
  qed
  with b(1) have lt: "(2::real) powi e < 2 powi int prec" by linarith
  have e1: "e < int prec"
  proof (rule ccontr)
    assume "\<not> e < int prec"
    then have "(2::real) powi int prec \<le> 2 powi e" by (intro power_int_increasing) simp_all
    with lt show False by linarith
  qed
  have e0: "0 \<le> e"
  proof (rule ccontr)
    assume "\<not> 0 \<le> e"
    then have "(2::real) powi (e + 1) \<le> 2 powi 0" by (intro power_int_increasing) simp_all
    with one b(2) show False by simp
  qed
  define k where "k = nat (int prec - 1 - e)"
  have k: "e - int prec + 1 = - int k" using e1 by (simp add: k_def)
  have sc: "t / 2 powi (e - int prec + 1) = of_int (m * 2 ^ k)"
    unfolding k t_def by (simp add: power_int_minus field_simps)
  have "round_to prec t = of_int (m * 2 ^ k) * 2 powi (e - int prec + 1)"
    by (rule round_to_eval [OF b]) (simp only: sc round_even_int)
  also have "\<dots> = t" unfolding k t_def by (simp add: power_int_minus field_simps)
  finally show ?thesis unfolding t_def .
qed

lemma round_to_exact:
  assumes "\<bar>m\<bar> < 2 ^ prec"
  shows "round_to prec (of_int m * 2 powi k) = of_int m * 2 powi k"
  by (simp only: round_to_scale round_to_int [OF assms])

lemma round_to_idem:
  assumes "0 < prec"
  shows "round_to prec (round_to prec t) = round_to prec t"
proof -
  have pos: "round_to prec (round_to prec t) = round_to prec t" if "0 < t" for t
  proof -
    define e where "e = \<lfloor>log 2 \<bar>t\<bar>\<rfloor>"
    define c where "c = e - int prec + 1"
    define n where "n = round_even (t / 2 powi c)"
    from that have t: "t \<noteq> 0" "\<bar>t\<bar> = t" by simp_all
    have b: "2 powi e \<le> t" "t < 2 powi (e + 1)"
      using binade_bounds [OF t(1)] unfolding e_def t(2) by simp_all
    have r: "round_to prec t = of_int n * 2 powi c"
      unfolding n_def c_def using b by (intro round_to_eval) (simp_all add: t(2))
    have c: "(0::real) < 2 powi c" by simp
    have hi: "(2::real) powi (e + 1) = of_int (2 ^ prec) * 2 powi c"
    proof -
      have "e + 1 = int prec + c" by (simp add: c_def)
      then have "(2::real) powi (e + 1) = 2 powi int prec * 2 powi c" by (simp add: power_int_add)
      then show ?thesis by simp
    qed
    have "real_of_int n * 2 powi c \<le> of_int (2 ^ prec) * 2 powi c"
      using round_to_binade(2) [OF assms b] unfolding r hi .
    then have "real_of_int n \<le> of_int (2 ^ prec)" using c by (simp only: mult_le_cancel_right_pos)
    then have n1: "n \<le> 2 ^ prec" by (simp only: of_int_le_iff)
    have "0 < round_to prec t"
    proof -
      have "(0::real) < 2 powi e" by simp
      with round_to_binade(1) [OF assms b] show ?thesis by linarith
    qed
    then have "0 < real_of_int n" unfolding r using c by (simp add: zero_less_mult_iff)
    then have n0: "0 < n" by simp
    show ?thesis
    proof (cases "n = 2 ^ prec")
      case True
      have "real_of_int n * 2 powi c = of_int 1 * 2 powi (int prec + c)"
        unfolding True by (simp add: power_int_add)
      moreover have "round_to prec (of_int 1 * 2 powi (int prec + c)) = of_int 1 * 2 powi (int prec + c)"
        using assms by (intro round_to_exact) simp
      ultimately show ?thesis unfolding r by simp
    next
      case False
      with n1 n0 have "\<bar>n\<bar> < 2 ^ prec" by simp
      then show ?thesis unfolding r by (rule round_to_exact)
    qed
  qed
  consider "0 < t" | "t = 0" | "t < 0" by linarith
  then show ?thesis
  proof cases
    case 1
    then show ?thesis by (rule pos)
  next
    case 2
    then show ?thesis by (simp add: round_to_zero)
  next
    case 3
    then have "round_to prec (round_to prec (- t)) = round_to prec (- t)" by (intro pos) simp
    then show ?thesis by (simp add: round_to_neg)
  qed
qed

lemma round_to_err: "\<bar>round_to prec t - t\<bar> \<le> 2 powi (- int prec) * \<bar>t\<bar>"
proof (cases "t = 0")
  case True
  then show ?thesis by (simp add: round_to_zero)
next
  case False
  define e where "e = \<lfloor>log 2 \<bar>t\<bar>\<rfloor>"
  define c where "c = e - int prec + 1"
  have b: "2 powi e \<le> \<bar>t\<bar>" "\<bar>t\<bar> < 2 powi (e + 1)"
    unfolding e_def using binade_bounds [OF False] by simp_all
  have c: "(0::real) < 2 powi c" by simp
  have r: "round_to prec t = of_int (round_even (t / 2 powi c)) * 2 powi c"
    unfolding c_def by (rule round_to_eval [OF b refl])
  have "round_to prec t - t = (of_int (round_even (t / 2 powi c)) - t / 2 powi c) * 2 powi c"
    unfolding r using c by (simp add: field_simps)
  then have "\<bar>round_to prec t - t\<bar> = \<bar>of_int (round_even (t / 2 powi c)) - t / 2 powi c\<bar> * 2 powi c"
    using c by (simp add: abs_mult)
  also have "\<dots> \<le> 1 / 2 * 2 powi c"
    using round_even_err [of "t / 2 powi c"] c by (intro mult_right_mono) simp_all
  also have "\<dots> = 2 powi (- int prec) * 2 powi e"
  proof -
    have "(2::real) powi (- int prec + e + 1) = 2 powi (- int prec) * 2 powi e * 2 powi 1"
      by (simp only: two_powi_add)
    moreover have "c = - int prec + e + 1" by (simp add: c_def)
    ultimately have "(2::real) powi c = 2 powi (- int prec) * 2 powi e * 2" by simp
    then show ?thesis by simp
  qed
  also have "\<dots> \<le> 2 powi (- int prec) * \<bar>t\<bar>"
    using b(1) by (intro mult_left_mono) simp_all
  finally show ?thesis .
qed

lemma double_eval:
  assumes "2 powi e \<le> \<bar>t\<bar>" and "\<bar>t\<bar> < 2 powi (e + 1)"
    and "\<bar>t / 2 powi (e - 52) - of_int n\<bar> < 1 / 2"
  shows "double t = of_int n * 2 powi (e - 52)"
proof -
  have "round_even (t / 2 powi (e - int 53 + 1)) = n"
    using assms(3) by (intro round_even_eval) simp
  from round_to_eval [OF assms(1,2) this] show ?thesis by (simp add: double_def)
qed

lemma double_exact: "\<bar>m\<bar> < 2 ^ 53 \<Longrightarrow> double (of_int m * 2 powi k) = of_int m * 2 powi k"
  unfolding double_def by (rule round_to_exact)

lemma double_int: "\<bar>m\<bar> < 2 ^ 53 \<Longrightarrow> double (of_int m) = of_int m"
  unfolding double_def by (rule round_to_int)

lemma double_zero: "double 0 = 0"
  by (simp add: double_def round_to_zero)

lemma double_neg: "double (- t) = - double t"
  by (simp add: double_def round_to_neg)

lemma double_mono: "s \<le> t \<Longrightarrow> double s \<le> double t"
  unfolding double_def by (rule round_to_mono) simp

lemma double_idem: "double (double t) = double t"
  unfolding double_def by (rule round_to_idem) simp

lemma double_half: "double (t / 2) = double t / 2"
  using round_to_scale [of 53 t "- 1"] by (simp add: double_def)

lemma double_err: "\<bar>double t - t\<bar> \<le> \<bar>t\<bar> / 2 ^ 53"
  using round_to_err [of 53 t] by (simp add: double_def power_int_minus field_simps)


section \<open>Properties of the boolean composition pipeline\<close>

lemma merge_step_failed: "failed (ev acc cube ADDITION) \<Longrightarrow> merge_step ev acc cube = acc"
  by (auto simp: merge_step_def split: outcome.splits option.splits)

lemma merge_step_sound: "has_position (Some acc) \<Longrightarrow> has_position (Some (merge_step ev acc cube))"
  by (auto simp: merge_step_def split: outcome.splits option.splits)

lemma merge_loop_append:
  "merge_loop ev acc (xs @ ys) = merge_loop ev (merge_loop ev acc xs) ys"
  by (induction xs arbitrary: acc) simp_all

lemma merge_loop_sound:
  "has_position (Some acc) \<Longrightarrow> has_position (Some (merge_loop ev acc cubes))"
  by (induction cubes arbitrary: acc) (simp_all add: merge_step_sound del: has_position.simps)

lemma merge_class_sound:
  "sound old \<Longrightarrow> \<forall>c\<in>set cubes. has_position (Some c) \<Longrightarrow> sound (merge_class ev old cubes)"
  by (cases cubes) (simp_all add: merge_loop_sound del: has_position.simps)

lemma add_base_sound:
  "sound dark \<Longrightarrow> has_position (Some baseBrush) \<Longrightarrow> sound (add_base ev baseBrush dark)"
  by (cases dark) (auto split: outcome.splits option.splits)

lemma subtract_dark_sound: "sound light \<Longrightarrow> sound (subtract_dark ev light dark)"
  by (cases "(ev, light, dark)" rule: subtract_dark.cases)
     (auto split: outcome.splits option.splits)

lemma merge_step_accepted:
  "ev acc cube ADDITION = Returns (Some r) \<Longrightarrow> has_position (Some r) \<Longrightarrow>
   merge_step ev acc cube = r"
  by (simp add: merge_step_def)

lemma merge_class_next:
  assumes "0 < n" and "n < length cubes" and "merge_class ev old (take n cubes) = Some acc"
  shows "merge_class ev old (take (Suc n) cubes) = Some (merge_step ev acc (cubes ! n))"
proof -
  from assms(1,2) obtain c cs where cubes: "cubes = c # cs" by (cases cubes) auto
  from assms(1) obtain j where n: "n = Suc j" by (cases n) auto
  from assms(2) cubes n have j: "j < length cs" by simp
  from assms(3) cubes n have acc: "merge_loop ev c (take j cs) = acc" by simp
  have "take (Suc j) cs = take j cs @ [cs ! j]" using j by (rule take_Suc_conv_app_nth)
  then have "merge_loop ev c (take (Suc j) cs) = merge_step ev acc (cs ! j)"
    by (simp add: merge_loop_append acc)
  then show ?thesis using cubes n by simp
qed

text \<open>
  C1, amended.  Provided the cubes and the base plate have a position attribute and the
  two module variables are unset or hold a brush with a position attribute on entry, every
  accumulator of the pipeline is unset or holds a brush with a position attribute: after
  every step of the light fold and of the dark fold (the prefixes of the cube lists), after
  the base plate step and after the final subtraction.  Each fold starts from its first
  cube and each later step applies \<open>merge_step\<close> to the accumulator before it.  An
  operation that throws, or whose result is null or lacks the geometry or the position
  attribute, leaves the accumulator as it was, except that a throwing addition of the base
  plate puts the plate in its place.  A result that has the position attribute becomes
  the accumulator, so an accumulator holds its seed, the plate or the last result that
  passed the test.
\<close>

theorem accumulators_hold_last_accepted:
  assumes "sound (lightMergedBrush st)" and "sound (darkMergedBrush st)"
    and "\<forall>c \<in> set allLightCubes \<union> set allDarkCubes. has_position (Some c)"
    and "has_position (Some baseBrush)"
  shows "(\<forall>n \<le> length allLightCubes.
            sound (merge_class ev (lightMergedBrush st) (take n allLightCubes)))
       \<and> (\<forall>n \<le> length allDarkCubes.
            sound (merge_class ev (darkMergedBrush st) (take n allDarkCubes)))
       \<and> sound (lightMergedBrush (compose ev baseBrush st allLightCubes allDarkCubes))
       \<and> sound (darkMergedBrush (compose ev baseBrush st allLightCubes allDarkCubes))
       \<and> darkMergedBrush (compose ev baseBrush st allLightCubes allDarkCubes) =
            add_base ev baseBrush (merge_class ev (darkMergedBrush st) allDarkCubes)
       \<and> lightMergedBrush (compose ev baseBrush st allLightCubes allDarkCubes) =
            subtract_dark ev (merge_class ev (lightMergedBrush st) allLightCubes)
              (add_base ev baseBrush (merge_class ev (darkMergedBrush st) allDarkCubes))
       \<and> (\<forall>old cubes. merge_class ev old (take 0 cubes) = old \<and>
            (cubes \<noteq> [] \<longrightarrow> merge_class ev old (take 1 cubes) = Some (cubes ! 0)))
       \<and> (\<forall>old cubes n acc. 0 < n \<and> n < length cubes \<and>
              merge_class ev old (take n cubes) = Some acc \<longrightarrow>
              merge_class ev old (take (Suc n) cubes) = Some (merge_step ev acc (cubes ! n)))
       \<and> (\<forall>acc cube. failed (ev acc cube ADDITION) \<longrightarrow> merge_step ev acc cube = acc)
       \<and> (\<forall>acc cube r. ev acc cube ADDITION = Returns (Some r) \<and> has_position (Some r) \<longrightarrow>
              merge_step ev acc cube = r)
       \<and> add_base ev baseBrush None = Some baseBrush
       \<and> (\<forall>dark. failed (ev dark baseBrush ADDITION) \<longrightarrow>
            add_base ev baseBrush (Some dark) =
              (if ev dark baseBrush ADDITION = Throws then Some baseBrush else Some dark))
       \<and> (\<forall>dark r. ev dark baseBrush ADDITION = Returns (Some r) \<and> has_position (Some r) \<longrightarrow>
              add_base ev baseBrush (Some dark) = Some r)
       \<and> (\<forall>light. subtract_dark ev light None = light)
       \<and> (\<forall>dark. subtract_dark ev None dark = None)
       \<and> (\<forall>light dark. failed (ev light dark SUBTRACTION) \<longrightarrow>
            subtract_dark ev (Some light) (Some dark) = Some light)
       \<and> (\<forall>light dark r. ev light dark SUBTRACTION = Returns (Some r) \<and> has_position (Some r) \<longrightarrow>
              subtract_dark ev (Some light) (Some dark) = Some r)"
proof -
  have light: "sound (merge_class ev (lightMergedBrush st) (take n allLightCubes))" for n
    using assms(1,3) by (intro merge_class_sound) (auto dest: in_set_takeD)
  have dark: "sound (merge_class ev (darkMergedBrush st) (take n allDarkCubes))" for n
    using assms(2,3) by (intro merge_class_sound) (auto dest: in_set_takeD)
  have light1: "sound (merge_class ev (lightMergedBrush st) allLightCubes)"
    using light [of "length allLightCubes"] by simp
  have dark1: "sound (merge_class ev (darkMergedBrush st) allDarkCubes)"
    using dark [of "length allDarkCubes"] by simp
  have dark2: "sound (darkMergedBrush (compose ev baseBrush st allLightCubes allDarkCubes))"
    using dark1 assms(4)
    by (simp add: compose_def Let_def add_base_sound del: sound.simps has_position.simps)
  have light3: "sound (lightMergedBrush (compose ev baseBrush st allLightCubes allDarkCubes))"
    using light1 by (simp add: compose_def Let_def subtract_dark_sound del: sound.simps)
  have out: "darkMergedBrush (compose ev baseBrush st allLightCubes allDarkCubes) =
            add_base ev baseBrush (merge_class ev (darkMergedBrush st) allDarkCubes)"
    "lightMergedBrush (compose ev baseBrush st allLightCubes allDarkCubes) =
            subtract_dark ev (merge_class ev (lightMergedBrush st) allLightCubes)
              (add_base ev baseBrush (merge_class ev (darkMergedBrush st) allDarkCubes))"
    by (simp_all add: compose_def Let_def)
  have seed: "merge_class ev old (take 0 cubes) = old \<and>
            (cubes \<noteq> [] \<longrightarrow> merge_class ev old (take 1 cubes) = Some (cubes ! 0))" for old cubes
    by (cases cubes) simp_all
  have nxt: "0 < n \<and> n < length cubes \<and> merge_class ev old (take n cubes) = Some acc \<longrightarrow>
      merge_class ev old (take (Suc n) cubes) = Some (merge_step ev acc (cubes ! n))"
    for old cubes n acc
    using merge_class_next [of n cubes ev old acc] by blast
  have step1: "failed (ev acc cube ADDITION) \<longrightarrow> merge_step ev acc cube = acc" for acc cube
    by (simp add: merge_step_failed)
  have step1': "ev acc cube ADDITION = Returns (Some r) \<and> has_position (Some r) \<longrightarrow>
      merge_step ev acc cube = r" for acc cube r
    by (simp add: merge_step_def)
  have step2: "failed (ev d baseBrush ADDITION) \<longrightarrow>
      add_base ev baseBrush (Some d) =
        (if ev d baseBrush ADDITION = Throws then Some baseBrush else Some d)" for d
    by (auto split: outcome.splits option.splits)
  have step2': "ev d baseBrush ADDITION = Returns (Some r) \<and> has_position (Some r) \<longrightarrow>
      add_base ev baseBrush (Some d) = Some r" for d r
    by simp
  have step3: "failed (ev l d SUBTRACTION) \<longrightarrow> subtract_dark ev (Some l) (Some d) = Some l"
    for l d
    by (auto split: outcome.splits option.splits)
  have step3': "ev l d SUBTRACTION = Returns (Some r) \<and> has_position (Some r) \<longrightarrow>
      subtract_dark ev (Some l) (Some d) = Some r" for l d r
    by simp
  have unset: "subtract_dark ev l None = l" "subtract_dark ev None d' = None" for l d'
    by (cases l; simp) (cases d'; simp)
  show ?thesis
    apply (intro conjI allI)
    using light apply blast
    using dark apply blast
    apply (rule light3)
    apply (rule dark2)
    apply (rule out(1))
    apply (rule out(2))
    using seed apply blast
    using seed apply blast
    using nxt apply blast
    using step1 apply blast
    using step1' apply blast
    apply simp
    using step2 apply blast
    using step2' apply blast
    apply (rule unset(1))
    apply (rule unset(2))
    using step3 apply blast
    using step3' apply blast
    done
qed

theorem accumulators_hold_last_accepted_witness:
  "compose (\<lambda>a b op. if op = ADDITION \<and> b = sample_brush 3 then Returns (Some (sample_brush 5))
                      else Throws)
      (sample_brush 0) \<lparr>lightMergedBrush = None, darkMergedBrush = None\<rparr>
      [sample_brush 1, sample_brush 2, sample_brush 3] [sample_brush 4]
     = \<lparr>lightMergedBrush = Some (sample_brush 5), darkMergedBrush = Some (sample_brush 0)\<rparr>
   \<and> sound (Some (sample_brush 5))"
proof -
  let ?st = "\<lparr>lightMergedBrush = None, darkMergedBrush = None\<rparr> :: nat merged"
  let ?ev = "\<lambda>(a::nat brush) (b::nat brush) (op::csg_op).
      if op = ADDITION \<and> b = sample_brush 3 then Returns (Some (sample_brush 5)) else Throws"
  have h1: "sound (lightMergedBrush ?st)" and h2: "sound (darkMergedBrush ?st)" by simp_all
  have h3: "\<forall>c \<in> set [sample_brush 1, sample_brush 2, sample_brush 3] \<union> set [sample_brush 4].
      has_position (Some c)"
    by (simp add: sample_brush_def)
  have h4: "has_position (Some (sample_brush 0))" by (simp add: sample_brush_def)
  from accumulators_hold_last_accepted [OF h1 h2 h3 h4, of ?ev]
  have "sound (lightMergedBrush (compose ?ev (sample_brush 0) ?st
      [sample_brush 1, sample_brush 2, sample_brush 3] [sample_brush 4]))"
    by blast
  moreover have "compose ?ev (sample_brush 0) ?st
      [sample_brush 1, sample_brush 2, sample_brush 3] [sample_brush 4]
     = \<lparr>lightMergedBrush = Some (sample_brush 5), darkMergedBrush = Some (sample_brush 0)\<rparr>"
    by (simp add: compose_def merge_step_def sample_brush_def)
  ultimately show ?thesis by simp
qed

text \<open>
  C1 as stated fails for a result without renderable position data that still has the
  position attribute: an operation that returns a brush with an empty position array
  passes the test of lines 216, 234, 261 and 279, and its result takes the place of a
  brush with position data.
\<close>

theorem empty_result_counterexample:
  "renderable (Some (solid [0, 0, 0, 1, 0, 0, 0, 1, 0]))
   \<and> \<not> renderable (Some (solid []))
   \<and> \<not> failed (Returns (Some (solid [])))
   \<and> subtract_dark (\<lambda>a b op. Returns (Some (solid [])))
        (Some (solid [0, 0, 0, 1, 0, 0, 0, 1, 0])) (Some (solid [0, 0, 0, 1, 0, 0, 0, 1, 0]))
      = Some (solid [])
   \<and> merge_step (\<lambda>a b op. Returns (Some (solid [])))
        (solid [0, 0, 0, 1, 0, 0, 0, 1, 0]) (solid [0, 0, 0, 1, 0, 0, 0, 1, 0])
      = solid []"
  by (simp add: solid_def merge_step_def)

text \<open>
  C2, evaluated where it fails.  With the dark brush set, an addition of the base plate
  that returns null, or a brush without geometry, leaves the dark brush as it was, without
  the plate; only an addition that throws puts the plate in its place.
\<close>

theorem add_base_invalid_result_keeps_dark:
  "add_base (\<lambda>a b op. Returns None) (sample_brush 0) (Some (sample_brush 1))
     = Some (sample_brush 1)
   \<and> add_base (\<lambda>a b op. Returns (Some \<lparr>geometry = None\<rparr>)) (sample_brush 0)
       (Some (sample_brush 1)) = Some (sample_brush 1)
   \<and> add_base (\<lambda>a b op. Throws) (sample_brush 0) (Some (sample_brush 1))
     = Some (sample_brush 0)
   \<and> sample_brush 1 \<noteq> sample_brush 0"
  by (simp add: sample_brush_def)

text \<open>
  C3.  In a class fold over a list of cubes, let \<open>k > 0\<close> be a step whose addition fails
  on the accumulator reached after the first \<open>k\<close> cubes.  Then the fold ends with the
  accumulator it reaches on the list without cube \<open>k\<close>.
\<close>

theorem fold_failure_is_removal:
  assumes "0 < k" and "k < length cubes"
    and "merge_class ev old (take k cubes) = Some acc"
    and "failed (ev acc (cubes ! k) ADDITION)"
  shows "merge_class ev old cubes = merge_class ev old (take k cubes @ drop (Suc k) cubes)"
proof -
  from assms(1,2) obtain c cs where cubes: "cubes = c # cs" by (cases cubes) auto
  from assms(1) obtain j where k: "k = Suc j" by (cases k) auto
  from assms(2) cubes k have j: "j < length cs" by simp
  from assms(3) cubes k have acc: "merge_loop ev c (take j cs) = acc" by simp
  have split: "cs = take j cs @ cs ! j # drop (Suc j) cs"
    using j by (simp add: id_take_nth_drop)
  have "merge_loop ev c cs
      = merge_loop ev (merge_loop ev c (take j cs)) (cs ! j # drop (Suc j) cs)"
    by (subst split) (simp only: merge_loop_append)
  also have "\<dots> = merge_loop ev acc (drop (Suc j) cs)"
    using assms(4) cubes k acc by (simp add: merge_step_failed)
  also have "\<dots> = merge_loop ev c (take j cs @ drop (Suc j) cs)"
    by (simp add: merge_loop_append acc)
  finally show ?thesis using cubes k by simp
qed

theorem fold_failure_is_removal_witness:
  "merge_class (\<lambda>a b op. if b = sample_brush 2 then Throws else Returns (Some b)) None
     [sample_brush 1, sample_brush 2, sample_brush 3]
   = merge_class (\<lambda>a b op. if b = sample_brush 2 then Throws else Returns (Some b)) None
     [sample_brush 1, sample_brush 3]
   \<and> merge_class (\<lambda>a b op. if b = sample_brush 2 then Throws else Returns (Some b)) None
     [sample_brush 1, sample_brush 3] = Some (sample_brush 3)"
proof -
  let ?ev = "\<lambda>(a::nat brush) (b::nat brush) (op::csg_op).
    if b = sample_brush 2 then Throws else Returns (Some b)"
  let ?cubes = "[sample_brush 1, sample_brush 2, sample_brush 3]"
  have h1: "0 < (1::nat)" by simp
  have h2: "1 < length ?cubes" by simp
  have h3: "merge_class ?ev None (take 1 ?cubes) = Some (sample_brush 1)" by simp
  have h4: "failed (?ev (sample_brush 1) (?cubes ! 1) ADDITION)" by simp
  from fold_failure_is_removal [OF h1 h2 h3 h4]
  show ?thesis by (simp add: merge_step_def sample_brush_def)
qed

section \<open>Properties of the circle packer\<close>

lemma pack_loop_stop:
  "\<not> (i < attempts pk \<and> placed < count) \<Longrightarrow> pack_loop pk count rnd i placed = (pk, i)"
  by (subst pack_loop.simps) auto

lemma pack_loop_accept:
  "i < attempts pk \<Longrightarrow> placed < count \<Longrightarrow> accepts pk (candidate pk count rnd i placed) \<Longrightarrow>
   pack_loop pk count rnd i placed =
     pack_loop (pk\<lparr>circles := circles pk @ [candidate pk count rnd i placed]\<rparr>) count rnd
       (Suc i) (Suc placed)"
  by (subst pack_loop.simps) (simp add: Let_def)

lemma pack_loop_reject:
  "i < attempts pk \<Longrightarrow> placed < count \<Longrightarrow> \<not> accepts pk (candidate pk count rnd i placed) \<Longrightarrow>
   pack_loop pk count rnd i placed = pack_loop pk count rnd (Suc i) placed"
  by (subst pack_loop.simps) (simp add: Let_def)

lemma pack_loop_counts:
  "length (circles pk) = placed \<Longrightarrow> placed \<le> count \<Longrightarrow> i \<le> attempts pk \<Longrightarrow>
   snd (pack_loop pk count rnd i placed) \<le> attempts pk \<and>
   i \<le> snd (pack_loop pk count rnd i placed) \<and>
   length (circles (fst (pack_loop pk count rnd i placed))) \<le> count \<and>
   (snd (pack_loop pk count rnd i placed) = attempts pk \<or>
    length (circles (fst (pack_loop pk count rnd i placed))) = count)"
proof (induction pk count rnd i placed rule: pack_loop.induct)
  case (1 pk count rnd i placed)
  show ?case
  proof (cases "i < attempts pk \<and> placed < count")
    case False
    then show ?thesis using "1.prems" by (auto simp: pack_loop_stop)
  next
    case True
    show ?thesis
    proof (cases "accepts pk (candidate pk count rnd i placed)")
      case acc: True
      from "1.IH"(1) [OF True refl acc] "1.prems" True
      show ?thesis using acc by (simp add: pack_loop_accept)
    next
      case rej: False
      from "1.IH"(2) [OF True refl rej] "1.prems" True
      show ?thesis using rej by (simp add: pack_loop_reject)
    qed
  qed
qed

lemma candidate_attempts [simp]:
  "candidate (pk\<lparr>attempts := m\<rparr>) count rnd i placed = candidate pk count rnd i placed"
  by (simp add: candidate_def)

lemma accepts_attempts [simp]: "accepts (pk\<lparr>attempts := m\<rparr>) c = accepts pk c"
  by (simp add: accepts_def isWithinBounds_def isOverlapping_def)

lemma attempts_circles_swap:
  "pk\<lparr>attempts := m, circles := cs\<rparr> = pk\<lparr>circles := cs, attempts := m\<rparr>"
  by (cases pk) simp

lemma pack_loop_extends:
  "prefix (circles pk) (circles (fst (pack_loop pk count rnd i placed)))"
proof (induction pk count rnd i placed rule: pack_loop.induct)
  case (1 pk count rnd i placed)
  show ?case
  proof (cases "i < attempts pk \<and> placed < count")
    case False
    then show ?thesis by (simp add: pack_loop_stop)
  next
    case True
    show ?thesis
    proof (cases "accepts pk (candidate pk count rnd i placed)")
      case acc: True
      from "1.IH"(1) [OF True refl acc]
      have "prefix (circles pk @ [candidate pk count rnd i placed])
          (circles (fst (pack_loop pk count rnd i placed)))"
        using True acc by (simp add: pack_loop_accept)
      then show ?thesis by (rule append_prefixD)
    next
      case rej: False
      from "1.IH"(2) [OF True refl rej]
      show ?thesis using True rej by (simp add: pack_loop_reject)
    qed
  qed
qed

lemma pack_loop_budget:
  "i \<le> m \<Longrightarrow> m \<le> attempts pk \<Longrightarrow> length (circles pk) = placed \<Longrightarrow>
   prefix (circles (fst (pack_loop (pk\<lparr>attempts := m\<rparr>) count rnd i placed)))
          (circles (fst (pack_loop pk count rnd i placed))) \<and>
   (m < snd (pack_loop pk count rnd i placed) \<longrightarrow>
      length (circles (fst (pack_loop (pk\<lparr>attempts := m\<rparr>) count rnd i placed))) < count)"
proof (induction pk count rnd i placed rule: pack_loop.induct)
  case (1 pk count rnd i placed)
  show ?case
  proof (cases "i < attempts pk \<and> placed < count")
    case False
    then have "\<not> (i < attempts (pk\<lparr>attempts := m\<rparr>) \<and> placed < count)"
      using "1.prems" by auto
    then have "pack_loop (pk\<lparr>attempts := m\<rparr>) count rnd i placed = (pk\<lparr>attempts := m\<rparr>, i)"
      by (rule pack_loop_stop)
    then show ?thesis using False "1.prems" by (simp add: pack_loop_stop)
  next
    case True
    show ?thesis
    proof (cases "i = m")
      case same: True
      then have "pack_loop (pk\<lparr>attempts := m\<rparr>) count rnd i placed = (pk\<lparr>attempts := m\<rparr>, i)"
        by (intro pack_loop_stop) simp
      then show ?thesis using True "1.prems" by (simp add: pack_loop_extends)
    next
      case False
      then have im: "i < m" "Suc i \<le> m" using "1.prems" by auto
      show ?thesis
      proof (cases "accepts pk (candidate pk count rnd i placed)")
        case acc: True
        have "pack_loop (pk\<lparr>attempts := m\<rparr>) count rnd i placed =
            pack_loop (pk\<lparr>attempts := m, circles := circles pk @ [candidate pk count rnd i placed]\<rparr>)
              count rnd (Suc i) (Suc placed)"
          using im True acc by (subst pack_loop_accept) simp_all
        moreover from "1.IH"(1) [OF True refl acc] im "1.prems"
        have "prefix (circles (fst (pack_loop
                (pk\<lparr>circles := circles pk @ [candidate pk count rnd i placed], attempts := m\<rparr>)
                count rnd (Suc i) (Suc placed))))
              (circles (fst (pack_loop pk count rnd i placed))) \<and>
          (m < snd (pack_loop pk count rnd i placed) \<longrightarrow>
            length (circles (fst (pack_loop
                (pk\<lparr>circles := circles pk @ [candidate pk count rnd i placed], attempts := m\<rparr>)
                count rnd (Suc i) (Suc placed)))) < count)"
          using True acc by (simp add: pack_loop_accept)
        ultimately show ?thesis by (simp add: attempts_circles_swap)
      next
        case rej: False
        have "pack_loop (pk\<lparr>attempts := m\<rparr>) count rnd i placed =
            pack_loop (pk\<lparr>attempts := m\<rparr>) count rnd (Suc i) placed"
          using im True rej by (subst pack_loop_reject) simp_all
        moreover from "1.IH"(2) [OF True refl rej] im "1.prems"
        have "prefix (circles (fst (pack_loop (pk\<lparr>attempts := m\<rparr>) count rnd (Suc i) placed)))
              (circles (fst (pack_loop pk count rnd i placed))) \<and>
          (m < snd (pack_loop pk count rnd i placed) \<longrightarrow>
            length (circles (fst (pack_loop (pk\<lparr>attempts := m\<rparr>) count rnd (Suc i) placed))) < count)"
          using True rej by (simp add: pack_loop_reject)
        ultimately show ?thesis by simp
      qed
    qed
  qed
qed

text \<open>
  C5.  A packer made by the constructor makes at most 5000 trials and returns at most
  \<open>count\<close> circles; when it stops, the budget is used up or \<open>count\<close> circles are
  placed; and it stops as soon as that is so: with any smaller number of trials the count
  is not yet reached.  \<open>pack_loop\<close> is a total function (its recursion ends by the measure
  \<open>attempts - i\<close>) without an error branch, so the run ends with a list also when fewer
  circles are placed.
\<close>

theorem pack_budget:
  "pack_trials (CirclePacker b minR maxR) count rnd \<le> 5000
   \<and> length (pack (CirclePacker b minR maxR) count rnd) \<le> count
   \<and> (pack_trials (CirclePacker b minR maxR) count rnd = 5000
        \<or> length (pack (CirclePacker b minR maxR) count rnd) = count)
   \<and> (\<forall>m < pack_trials (CirclePacker b minR maxR) count rnd.
        length (pack ((CirclePacker b minR maxR)\<lparr>attempts := m\<rparr>) count rnd) < count)"
proof -
  let ?pk = "(CirclePacker b minR maxR)\<lparr>circles := []\<rparr>"
  have a: "attempts ?pk = 5000" by (simp add: CirclePacker_def)
  have "snd (pack_loop ?pk count rnd 0 0) \<le> attempts ?pk \<and>
        0 \<le> snd (pack_loop ?pk count rnd 0 0) \<and>
        length (circles (fst (pack_loop ?pk count rnd 0 0))) \<le> count \<and>
        (snd (pack_loop ?pk count rnd 0 0) = attempts ?pk \<or>
         length (circles (fst (pack_loop ?pk count rnd 0 0))) = count)"
    by (rule pack_loop_counts) simp_all
  then have counts: "pack_trials (CirclePacker b minR maxR) count rnd \<le> 5000
     \<and> length (pack (CirclePacker b minR maxR) count rnd) \<le> count
     \<and> (pack_trials (CirclePacker b minR maxR) count rnd = 5000
        \<or> length (pack (CirclePacker b minR maxR) count rnd) = count)"
    by (simp add: pack_def pack_trials_def a)
  have early: "length (pack ((CirclePacker b minR maxR)\<lparr>attempts := m\<rparr>) count rnd) < count"
    if "m < pack_trials (CirclePacker b minR maxR) count rnd" for m
  proof -
    from that counts have "m \<le> attempts ?pk" by (simp add: a)
    from pack_loop_budget [of 0 m ?pk 0 count rnd, OF _ this] that
    show ?thesis by (simp add: pack_def pack_trials_def attempts_circles_swap)
  qed
  from counts early show ?thesis by blast
qed

lemma sqrt_sample: "sqrt (625 / 4) = 25 / 2"
proof -
  have "sqrt ((25 / 2) * (25 / 2)) = \<bar>25 / 2 :: real\<bar>" by (rule real_sqrt_abs2)
  then show ?thesis by simp
qed

lemma sample_candidate_0: "candidate (sample_packer\<lparr>circles := cs\<rparr>) 2 sample_rnd 0 0 = Circle 0 0 1"
  by (simp add: candidate_def sample_packer_def CirclePacker_def sample_rnd_def)

lemma sample_candidate_1:
  "candidate (sample_packer\<lparr>circles := cs\<rparr>) 2 sample_rnd (Suc 0) (Suc 0) = Circle (25 / 2) 0 1"
  by (simp add: candidate_def sample_packer_def CirclePacker_def sample_rnd_def)

lemma sample_run:
  "pack_loop (sample_packer\<lparr>circles := []\<rparr>) 2 sample_rnd 0 0 =
     (sample_packer\<lparr>circles := [Circle 0 0 1, Circle (25 / 2) 0 1]\<rparr>, 2)"
proof -
  let ?p0 = "sample_packer\<lparr>circles := []\<rparr>"
  let ?p1 = "sample_packer\<lparr>circles := [Circle 0 0 1]\<rparr>"
  let ?p2 = "sample_packer\<lparr>circles := [Circle 0 0 1, Circle (25 / 2) 0 1]\<rparr>"
  have a: "attempts (sample_packer\<lparr>circles := cs\<rparr>) = 5000" for cs
    by (simp add: sample_packer_def CirclePacker_def)
  have acc0: "accepts ?p0 (Circle 0 0 1)"
    by (simp add: accepts_def isWithinBounds_def isOverlapping_def sample_packer_def CirclePacker_def)
  have acc1: "accepts ?p1 (Circle (25 / 2) 0 1)"
    by (simp add: accepts_def isWithinBounds_def isOverlapping_def sample_packer_def
        CirclePacker_def sqrt_sample)
  have "pack_loop ?p0 2 sample_rnd 0 0 = pack_loop ?p1 2 sample_rnd (Suc 0) (Suc 0)"
    using acc0 by (subst pack_loop_accept) (simp_all add: a sample_candidate_0)
  also have "\<dots> = pack_loop ?p2 2 sample_rnd (Suc (Suc 0)) (Suc (Suc 0))"
    using acc1 by (subst pack_loop_accept) (simp_all add: a sample_candidate_1)
  also have "\<dots> = (?p2, 2)"
    by (subst pack_loop_stop) simp_all
  finally show ?thesis .
qed

lemma sample_pack: "pack sample_packer 2 sample_rnd = [Circle 0 0 1, Circle (25 / 2) 0 1]"
  by (simp add: pack_def sample_run)

lemma sample_pack_trials: "pack_trials sample_packer 2 sample_rnd = 2"
  by (simp add: pack_trials_def sample_run)

theorem pack_budget_witness:
  "pack_trials sample_packer 2 sample_rnd = 2
   \<and> length (pack sample_packer 2 sample_rnd) = 2
   \<and> length (pack (sample_packer\<lparr>attempts := 1\<rparr>) 2 sample_rnd) < 2"
proof -
  from pack_budget [of "\<lparr>width = 50, rect.height = 50\<rparr>" 1 3 2 sample_rnd]
  have "\<forall>m<2. length (pack (sample_packer\<lparr>attempts := m\<rparr>) 2 sample_rnd) < 2"
    by (simp add: sample_packer_def [symmetric] sample_pack_trials)
  then have "length (pack (sample_packer\<lparr>attempts := 1\<rparr>) 2 sample_rnd) < 2" by simp
  then show ?thesis by (simp add: sample_pack sample_pack_trials)
qed

lemma pack_loop_fl_stop:
  "\<not> (i < attempts pk \<and> placed < count) \<Longrightarrow> pack_loop_fl pw pk count rnd i placed = (pk, i)"
  by (subst pack_loop_fl.simps) auto

lemma pack_loop_fl_accept:
  "i < attempts pk \<Longrightarrow> placed < count \<Longrightarrow> accepts_fl pk (candidate_fl pw pk count rnd i placed) \<Longrightarrow>
   pack_loop_fl pw pk count rnd i placed =
     pack_loop_fl pw (pk\<lparr>circles := circles pk @ [candidate_fl pw pk count rnd i placed]\<rparr>) count rnd
       (Suc i) (Suc placed)"
  by (subst pack_loop_fl.simps) (simp add: Let_def)

lemma pack_loop_fl_reject:
  "i < attempts pk \<Longrightarrow> placed < count \<Longrightarrow> \<not> accepts_fl pk (candidate_fl pw pk count rnd i placed) \<Longrightarrow>
   pack_loop_fl pw pk count rnd i placed = pack_loop_fl pw pk count rnd (Suc i) placed"
  by (subst pack_loop_fl.simps) (simp add: Let_def)

lemma distance_fl_sym: "distance_fl a b = distance_fl b a"
proof -
  have "double (p - q) * double (p - q) = double (q - p) * double (q - p)" for p q :: real
  proof -
    have "double (q - p) = - double (p - q)" using double_neg [of "p - q"] by simp
    then show ?thesis by simp
  qed
  then show ?thesis by (simp add: distance_fl_def Let_def)
qed

lemma overlapping_fl_distance:
  "\<not> overlapping_fl cs x y r \<Longrightarrow> c \<in> set cs \<Longrightarrow>
   double (r + circle_radius c) \<le> distance_fl (Circle x y r) c"
  by (induction cs) (auto simp: distance_fl_def Let_def split: if_splits)

lemma inset_exact:
  shows "double (x - r) > double (- w / 2) \<Longrightarrow> x - r > - w / 2"
    and "double (x + r) < double (w / 2) \<Longrightarrow> x + r < w / 2"
proof -
  show "x - r > - w / 2" if "double (x - r) > double (- w / 2)"
  proof (rule ccontr)
    assume "\<not> x - r > - w / 2"
    then have "double (x - r) \<le> double (- w / 2)" by (intro double_mono) simp
    with that show False by simp
  qed
  show "x + r < w / 2" if "double (x + r) < double (w / 2)"
  proof (rule ccontr)
    assume "\<not> x + r < w / 2"
    then have "double (w / 2) \<le> double (x + r)" by (intro double_mono) simp
    with that show False by simp
  qed
qed

lemma isWithinBounds_fl_inside:
  assumes "isWithinBounds_fl pk (circle_x c) (circle_y c) (circle_radius c)"
  shows "inside_rect (bounds pk) c"
  using assms
    inset_exact [where x = "circle_x c" and r = "circle_radius c" and w = "width (bounds pk)"]
    inset_exact [where x = "circle_y c" and r = "circle_radius c" and w = "rect.height (bounds pk)"]
  unfolding isWithinBounds_fl_def inside_rect_def by blast

lemma separated_fl_snoc:
  assumes "separated_fl cs"
    and "\<forall>c\<in>set cs. double (circle_radius n + circle_radius c) \<le> distance_fl n c"
  shows "separated_fl (cs @ [n])"
  unfolding separated_fl_def
proof (intro allI impI)
  fix i j assume i: "i < length (cs @ [n])" and j: "j < length (cs @ [n])" and ne: "i \<noteq> j"
  consider "i < length cs" "j < length cs" | "i = length cs" "j < length cs"
    | "i < length cs" "j = length cs"
    using i j ne by (auto simp: less_Suc_eq)
  then show "double (circle_radius ((cs @ [n]) ! i) + circle_radius ((cs @ [n]) ! j))
      \<le> distance_fl ((cs @ [n]) ! i) ((cs @ [n]) ! j)"
  proof cases
    case 1
    then show ?thesis using assms(1) ne by (simp add: separated_fl_def nth_append)
  next
    case 2
    then show ?thesis using assms(2) by (simp add: nth_append)
  next
    case 3
    then have "double (circle_radius n + circle_radius (cs ! i)) \<le> distance_fl n (cs ! i)"
      using assms(2) by simp
    then show ?thesis using 3 by (simp add: nth_append distance_fl_sym add.commute)
  qed
qed

lemma accepts_fl_snoc:
  assumes "accepts_fl pk c" and "separated_fl (circles pk)"
    and "\<forall>d\<in>set (circles pk). inside_rect (bounds pk) d"
  shows "separated_fl (circles pk @ [c]) \<and> (\<forall>d\<in>set (circles pk @ [c]). inside_rect (bounds pk) d)"
proof -
  have "double (circle_radius c + circle_radius d) \<le> distance_fl c d" if "d \<in> set (circles pk)" for d
  proof -
    from assms(1) that have "double (circle_radius c + circle_radius d)
        \<le> distance_fl (Circle (circle_x c) (circle_y c) (circle_radius c)) d"
      by (intro overlapping_fl_distance) (simp_all add: accepts_fl_def isOverlapping_fl_def)
    then show ?thesis by simp
  qed
  then have "separated_fl (circles pk @ [c])" using assms(2) by (intro separated_fl_snoc) auto
  moreover have "inside_rect (bounds pk) c"
    using assms(1) by (intro isWithinBounds_fl_inside) (simp add: accepts_fl_def)
  ultimately show ?thesis using assms(3) by simp
qed

lemma pack_loop_fl_invariant:
  "separated_fl (circles pk) \<Longrightarrow> \<forall>c\<in>set (circles pk). inside_rect (bounds pk) c \<Longrightarrow>
   separated_fl (circles (fst (pack_loop_fl pw pk count rnd i placed))) \<and>
   (\<forall>c\<in>set (circles (fst (pack_loop_fl pw pk count rnd i placed))). inside_rect (bounds pk) c)"
proof (induction pw pk count rnd i placed rule: pack_loop_fl.induct)
  case (1 pw pk count rnd i placed)
  show ?case
  proof (cases "i < attempts pk \<and> placed < count")
    case False
    then show ?thesis using "1.prems" by (simp add: pack_loop_fl_stop)
  next
    case True
    show ?thesis
    proof (cases "accepts_fl pk (candidate_fl pw pk count rnd i placed)")
      case acc: True
      from accepts_fl_snoc [OF acc "1.prems"] "1.IH"(1) [OF True refl acc]
      show ?thesis using True acc by (simp add: pack_loop_fl_accept)
    next
      case rej: False
      from "1.IH"(2) [OF True refl rej] "1.prems"
      show ?thesis using True rej by (simp add: pack_loop_fl_reject)
    qed
  qed
qed

lemma candidate_fl_attempts [simp]:
  "candidate_fl pw (pk\<lparr>attempts := m\<rparr>) count rnd i placed = candidate_fl pw pk count rnd i placed"
  by (simp add: candidate_fl_def)

lemma accepts_fl_attempts [simp]: "accepts_fl (pk\<lparr>attempts := m\<rparr>) c = accepts_fl pk c"
  by (simp add: accepts_fl_def isWithinBounds_fl_def isOverlapping_fl_def)

lemma pack_loop_fl_extends:
  "prefix (circles pk) (circles (fst (pack_loop_fl pw pk count rnd i placed)))"
proof (induction pw pk count rnd i placed rule: pack_loop_fl.induct)
  case (1 pw pk count rnd i placed)
  show ?case
  proof (cases "i < attempts pk \<and> placed < count")
    case False
    then show ?thesis by (simp add: pack_loop_fl_stop)
  next
    case True
    show ?thesis
    proof (cases "accepts_fl pk (candidate_fl pw pk count rnd i placed)")
      case acc: True
      from "1.IH"(1) [OF True refl acc]
      have "prefix (circles pk @ [candidate_fl pw pk count rnd i placed])
          (circles (fst (pack_loop_fl pw pk count rnd i placed)))"
        using True acc by (simp add: pack_loop_fl_accept)
      then show ?thesis by (rule append_prefixD)
    next
      case rej: False
      from "1.IH"(2) [OF True refl rej]
      show ?thesis using True rej by (simp add: pack_loop_fl_reject)
    qed
  qed
qed

lemma pack_loop_fl_budget:
  "i \<le> m \<Longrightarrow> m \<le> attempts pk \<Longrightarrow>
   prefix (circles (fst (pack_loop_fl pw (pk\<lparr>attempts := m\<rparr>) count rnd i placed)))
          (circles (fst (pack_loop_fl pw pk count rnd i placed)))"
proof (induction pw pk count rnd i placed rule: pack_loop_fl.induct)
  case (1 pw pk count rnd i placed)
  show ?case
  proof (cases "i < attempts pk \<and> placed < count")
    case False
    then have "\<not> (i < attempts (pk\<lparr>attempts := m\<rparr>) \<and> placed < count)"
      using "1.prems" by auto
    then have "pack_loop_fl pw (pk\<lparr>attempts := m\<rparr>) count rnd i placed = (pk\<lparr>attempts := m\<rparr>, i)"
      by (rule pack_loop_fl_stop)
    then show ?thesis using False "1.prems" by (simp add: pack_loop_fl_stop)
  next
    case True
    show ?thesis
    proof (cases "i = m")
      case same: True
      then have "pack_loop_fl pw (pk\<lparr>attempts := m\<rparr>) count rnd i placed = (pk\<lparr>attempts := m\<rparr>, i)"
        by (intro pack_loop_fl_stop) simp
      then show ?thesis using True "1.prems" by (simp add: pack_loop_fl_extends)
    next
      case False
      then have im: "i < m" "Suc i \<le> m" using "1.prems" by auto
      show ?thesis
      proof (cases "accepts_fl pk (candidate_fl pw pk count rnd i placed)")
        case acc: True
        have "pack_loop_fl pw (pk\<lparr>attempts := m\<rparr>) count rnd i placed =
            pack_loop_fl pw (pk\<lparr>attempts := m, circles := circles pk @ [candidate_fl pw pk count rnd i placed]\<rparr>)
              count rnd (Suc i) (Suc placed)"
          using im True acc by (subst pack_loop_fl_accept) simp_all
        moreover from "1.IH"(1) [OF True refl acc] im "1.prems"
        have "prefix (circles (fst (pack_loop_fl pw
                (pk\<lparr>circles := circles pk @ [candidate_fl pw pk count rnd i placed], attempts := m\<rparr>)
                count rnd (Suc i) (Suc placed))))
              (circles (fst (pack_loop_fl pw pk count rnd i placed)))"
          using True acc by (simp add: pack_loop_fl_accept)
        ultimately show ?thesis by (simp add: attempts_circles_swap)
      next
        case rej: False
        have "pack_loop_fl pw (pk\<lparr>attempts := m\<rparr>) count rnd i placed =
            pack_loop_fl pw (pk\<lparr>attempts := m\<rparr>) count rnd (Suc i) placed"
          using im True rej by (subst pack_loop_fl_reject) simp_all
        moreover from "1.IH"(2) [OF True refl rej] im "1.prems"
        have "prefix (circles (fst (pack_loop_fl pw (pk\<lparr>attempts := m\<rparr>) count rnd (Suc i) placed)))
              (circles (fst (pack_loop_fl pw pk count rnd i placed)))"
          using True rej by (simp add: pack_loop_fl_reject)
        ultimately show ?thesis by simp
      qed
    qed
  qed
qed

text \<open>
  C4, amended.  In the list that \<open>pack\<close> returns, for any two circles at different
  positions of the list the distance of the centres is at least the sum of the radii when
  both are computed in double precision as \<^verbatim>\<open>isOverlapping\<close> computes them; every circle
  lies strictly inside the bounding rectangle with its radius inset, in exact arithmetic;
  and the order is the order of acceptance: what a run with a smaller budget of trials
  returns is an initial segment of what the run returns.  This holds for every
  \<^verbatim>\<open>Math.pow\<close>.
\<close>

theorem pack_fl_separated_inside_ordered:
  "(\<forall>i<length (pack_fl pw pk count rnd). \<forall>j<length (pack_fl pw pk count rnd). i \<noteq> j \<longrightarrow>
       distance_fl (pack_fl pw pk count rnd ! i) (pack_fl pw pk count rnd ! j)
         \<ge> double (circle_radius (pack_fl pw pk count rnd ! i)
                    + circle_radius (pack_fl pw pk count rnd ! j)))
   \<and> (\<forall>c\<in>set (pack_fl pw pk count rnd).
       circle_x c - circle_radius c > - width (bounds pk) / 2 \<and>
       circle_x c + circle_radius c < width (bounds pk) / 2 \<and>
       circle_y c - circle_radius c > - rect.height (bounds pk) / 2 \<and>
       circle_y c + circle_radius c < rect.height (bounds pk) / 2)
   \<and> (\<forall>m\<le>attempts pk. prefix (pack_fl pw (pk\<lparr>attempts := m\<rparr>) count rnd) (pack_fl pw pk count rnd))"
proof -
  let ?pk = "pk\<lparr>circles := []\<rparr>"
  have "separated_fl (circles ?pk)" by (simp add: separated_fl_def)
  moreover have "\<forall>c\<in>set (circles ?pk). inside_rect (bounds ?pk) c" by simp
  ultimately have inv: "separated_fl (pack_fl pw pk count rnd) \<and>
      (\<forall>c\<in>set (pack_fl pw pk count rnd). inside_rect (bounds ?pk) c)"
    unfolding pack_fl_def by (rule pack_loop_fl_invariant)
  have pre: "prefix (pack_fl pw (pk\<lparr>attempts := m\<rparr>) count rnd) (pack_fl pw pk count rnd)"
    if "m \<le> attempts pk" for m
    using pack_loop_fl_budget [of 0 m ?pk pw count rnd 0] that
    by (simp add: pack_fl_def attempts_circles_swap)
  from inv pre show ?thesis by (simp add: separated_fl_def inside_rect_def)
qed

lemma double_small:
  "double 1 = 1" "double 2 = 2" "double 3 = 3" "double (1 / 2) = 1 / 2" "double (- 1) = - 1"
  "double 25 = 25" "double (- 25) = - 25"
  using double_int [of 1] double_int [of 2] double_int [of 3] double_exact [of 1 "- 1"]
    double_int [of "- 1"] double_int [of 25] double_int [of "- 25"]
  by simp_all

lemma close_candidate_0:
  "candidate_fl js_pow (sample_packer\<lparr>circles := cs\<rparr>) 2 close_rnd 0 0 = Circle 0 0 1"
  by (simp add: candidate_fl_def sample_packer_def CirclePacker_def close_rnd_def js_pow_def
      double_zero double_small)

lemma close_centre:
  "double (double (2431828337024643 / 2 ^ 52 - 0.5) * 50) = 4500713083484875 / 2 ^ 51"
  "double (double (4516497092250011 / 2 ^ 53 - 0.5) * 50) = 322436621987875 / 2 ^ 52"
proof -
  have 1: "double (2431828337024643 / 2 ^ 52 - 0.5) = 180028523339395 / 2 ^ 52"
    using double_exact [of 180028523339395 "- 52"] by simp
  have 2: "double (180028523339395 / 2 ^ 52 * 50) = 4500713083484875 / 2 ^ 51"
    using double_exact [of 4500713083484875 "- 51"] by simp
  have 3: "double (4516497092250011 / 2 ^ 53 - 0.5) = 12897464879515 / 2 ^ 53"
    using double_exact [of 12897464879515 "- 53"] by simp
  have 4: "double (12897464879515 / 2 ^ 53 * 50) = 322436621987875 / 2 ^ 52"
    using double_exact [of 322436621987875 "- 52"] by simp
  show "double (double (2431828337024643 / 2 ^ 52 - 0.5) * 50) = 4500713083484875 / 2 ^ 51"
    unfolding 1 2 ..
  show "double (double (4516497092250011 / 2 ^ 53 - 0.5) * 50) = 322436621987875 / 2 ^ 52"
    unfolding 3 4 ..
qed

lemma close_candidate_1:
  "candidate_fl js_pow (sample_packer\<lparr>circles := cs\<rparr>) 2 close_rnd (Suc 0) (Suc 0) =
     Circle (4500713083484875 / 2 ^ 51) (322436621987875 / 2 ^ 52) 1"
proof -
  have r: "close_rnd (3 * Suc 0) = 0" "close_rnd (3 * Suc 0 + 1) = 2431828337024643 / 2 ^ 52"
    "close_rnd (3 * Suc 0 + 2) = 4516497092250011 / 2 ^ 53"
    by (simp_all add: close_rnd_def)
  have p: "js_pow 0 b = 0" for b by (simp add: js_pow_def double_zero)
  have b: "width (bounds (sample_packer\<lparr>circles := cs\<rparr>)) = 50"
    "rect.height (bounds (sample_packer\<lparr>circles := cs\<rparr>)) = 50"
    "minRadius (sample_packer\<lparr>circles := cs\<rparr>) = 1"
    "maxRadius (sample_packer\<lparr>circles := cs\<rparr>) = 3"
    by (simp_all add: sample_packer_def CirclePacker_def)
  have rad: "double (1 + double (double (3 - 1) * 0)) = 1"
    by (simp add: double_zero double_small)
  show ?thesis
    unfolding candidate_fl_def Let_def r p b close_centre rad ..
qed

lemma close_squares:
  "double (4500713083484875 / 2 ^ 51 * (4500713083484875 / 2 ^ 51)) = 8995656779410025 / 2 ^ 51"
  "double (322436621987875 / 2 ^ 52 * (322436621987875 / 2 ^ 52)) = 2954873684727539 / 2 ^ 59"
  "double (8995656779410025 / 2 ^ 51 + 2954873684727539 / 2 ^ 59) = 4"
proof -
  show "double (4500713083484875 / 2 ^ 51 * (4500713083484875 / 2 ^ 51)) = 8995656779410025 / 2 ^ 51"
    using double_eval [of 1 "4500713083484875 / 2 ^ 51 * (4500713083484875 / 2 ^ 51)" 8995656779410025]
    by simp
  show "double (322436621987875 / 2 ^ 52 * (322436621987875 / 2 ^ 52)) = 2954873684727539 / 2 ^ 59"
    using double_eval [of "- 8" "322436621987875 / 2 ^ 52 * (322436621987875 / 2 ^ 52)" 5909747369455078]
    by simp
  show "double (8995656779410025 / 2 ^ 51 + 2954873684727539 / 2 ^ 59) = 4"
    using double_eval [of 1 "8995656779410025 / 2 ^ 51 + 2954873684727539 / 2 ^ 59" "2 ^ 53"]
    by simp
qed

lemma sqrt_four: "sqrt 4 = 2"
proof -
  have "sqrt (2 * 2) = \<bar>2 :: real\<bar>" by (rule real_sqrt_abs2)
  then show ?thesis by simp
qed

lemma close_distance_fl:
  "distance_fl (Circle (4500713083484875 / 2 ^ 51) (322436621987875 / 2 ^ 52) 1) (Circle 0 0 1) = 2"
proof -
  have d: "double (4500713083484875 / 2 ^ 51 - 0) = 4500713083484875 / 2 ^ 51"
    "double (322436621987875 / 2 ^ 52 - 0) = 322436621987875 / 2 ^ 52"
    using double_exact [of 4500713083484875 "- 51"] double_exact [of 322436621987875 "- 52"]
    by simp_all
  have c: "circle_x (Circle a b r) = a" "circle_y (Circle a b r) = b" for a b r by simp_all
  show ?thesis
    unfolding distance_fl_def Let_def c d close_squares sqrt_four by (rule double_small)
qed

lemma close_within:
  "isWithinBounds_fl (sample_packer\<lparr>circles := cs\<rparr>)
     (4500713083484875 / 2 ^ 51) (322436621987875 / 2 ^ 52) 1"
proof -
  have b: "width (bounds (sample_packer\<lparr>circles := cs\<rparr>)) = 50"
    "rect.height (bounds (sample_packer\<lparr>circles := cs\<rparr>)) = 50"
    by (simp_all add: sample_packer_def CirclePacker_def)
  have h: "double (- 50 / 2) = - 25" "double (50 / 2) = 25"
    by (simp_all add: double_small)
  have 1: "double (4500713083484875 / 2 ^ 51 - 1) = 2248913269799627 / 2 ^ 51"
    using double_exact [of 2248913269799627 "- 51"] by simp
  have 2: "double (4500713083484875 / 2 ^ 51 + 1) = 6752512897170123 / 2 ^ 51"
    using double_exact [of 6752512897170123 "- 51"] by simp
  have 3: "double (322436621987875 / 2 ^ 52 - 1) = - 4181163005382621 / 2 ^ 52"
    using double_exact [of "- 4181163005382621" "- 52"] by simp
  have 4: "double (322436621987875 / 2 ^ 52 + 1) = 4826036249358371 / 2 ^ 52"
    using double_exact [of 4826036249358371 "- 52"] by simp
  show ?thesis unfolding isWithinBounds_fl_def b h 1 2 3 4 by simp
qed

lemma close_apart:
  "\<not> overlapping_fl [Circle 0 0 1] (4500713083484875 / 2 ^ 51) (322436621987875 / 2 ^ 52) 1"
proof -
  have d: "double (4500713083484875 / 2 ^ 51 - 0) = 4500713083484875 / 2 ^ 51"
    "double (322436621987875 / 2 ^ 52 - 0) = 322436621987875 / 2 ^ 52"
    using double_exact [of 4500713083484875 "- 51"] double_exact [of 322436621987875 "- 52"]
    by simp_all
  have c: "circle_x (Circle a b r) = a" "circle_y (Circle a b r) = b"
    "circle_radius (Circle a b r) = r" for a b r by simp_all
  have s: "double (1 + 1) = 2" by (simp add: double_small)
  show ?thesis
    unfolding overlapping_fl.simps Let_def c d close_squares sqrt_four s double_small by simp
qed

lemma close_run:
  "pack_loop_fl js_pow (sample_packer\<lparr>circles := []\<rparr>) 2 close_rnd 0 0 =
     (sample_packer\<lparr>circles :=
        [Circle 0 0 1, Circle (4500713083484875 / 2 ^ 51) (322436621987875 / 2 ^ 52) 1]\<rparr>, 2)"
proof -
  let ?c = "Circle (4500713083484875 / 2 ^ 51) (322436621987875 / 2 ^ 52) 1"
  let ?p0 = "sample_packer\<lparr>circles := []\<rparr>"
  let ?p1 = "sample_packer\<lparr>circles := [Circle 0 0 1]\<rparr>"
  let ?p2 = "sample_packer\<lparr>circles := [Circle 0 0 1, ?c]\<rparr>"
  have a: "attempts (sample_packer\<lparr>circles := cs\<rparr>) = 5000" for cs
    by (simp add: sample_packer_def CirclePacker_def)
  have acc0: "accepts_fl ?p0 (Circle 0 0 1)"
    by (simp add: accepts_fl_def isWithinBounds_fl_def isOverlapping_fl_def sample_packer_def
        CirclePacker_def double_small)
  have acc1: "accepts_fl ?p1 ?c"
    unfolding accepts_fl_def isOverlapping_fl_def using close_within [of "[Circle 0 0 1]"] close_apart
    by simp
  have "pack_loop_fl js_pow ?p0 2 close_rnd 0 0 = pack_loop_fl js_pow ?p1 2 close_rnd (Suc 0) (Suc 0)"
    using acc0 by (subst pack_loop_fl_accept) (simp_all add: a close_candidate_0)
  also have "\<dots> = pack_loop_fl js_pow ?p2 2 close_rnd (Suc (Suc 0)) (Suc (Suc 0))"
    using acc1 by (subst pack_loop_fl_accept) (simp_all add: a close_candidate_1)
  also have "\<dots> = (?p2, 2)"
    by (subst pack_loop_fl_stop) simp_all
  finally show ?thesis .
qed

lemma close_pack:
  "pack_fl js_pow sample_packer 2 close_rnd =
     [Circle 0 0 1, Circle (4500713083484875 / 2 ^ 51) (322436621987875 / 2 ^ 52) 1]"
  by (simp add: pack_fl_def close_run)

lemma close_distance:
  "distance (Circle (4500713083484875 / 2 ^ 51) (322436621987875 / 2 ^ 52) 1) (Circle 0 0 1) < 2"
proof -
  have "(4500713083484875 / 2 ^ 51 - 0) * (4500713083484875 / 2 ^ 51 - 0)
      + (322436621987875 / 2 ^ 52 - 0) * (322436621987875 / 2 ^ 52 - 0) < (4 :: real)"
    by simp
  then have "sqrt ((4500713083484875 / 2 ^ 51 - 0) * (4500713083484875 / 2 ^ 51 - 0)
      + (322436621987875 / 2 ^ 52 - 0) * (322436621987875 / 2 ^ 52 - 0)) < sqrt 4"
    by (simp only: real_sqrt_less_iff)
  then show ?thesis unfolding sqrt_four by (simp add: distance_def Let_def)
qed

theorem pack_fl_separated_inside_ordered_witness:
  "pack_fl js_pow sample_packer 2 close_rnd =
     [Circle 0 0 1, Circle (4500713083484875 / 2 ^ 51) (322436621987875 / 2 ^ 52) 1]
   \<and> distance_fl (Circle 0 0 1) (Circle (4500713083484875 / 2 ^ 51) (322436621987875 / 2 ^ 52) 1)
       \<ge> double (1 + 1)
   \<and> 4500713083484875 / 2 ^ 51 + 1 < width (bounds sample_packer) / 2
   \<and> prefix (pack_fl js_pow (sample_packer\<lparr>attempts := 1\<rparr>) 2 close_rnd)
        (pack_fl js_pow sample_packer 2 close_rnd)"
proof -
  let ?c = "Circle (4500713083484875 / 2 ^ 51) (322436621987875 / 2 ^ 52) 1"
  have b: "bounds sample_packer = \<lparr>width = 50, rect.height = 50\<rparr>" "attempts sample_packer = 5000"
    by (simp_all add: sample_packer_def CirclePacker_def)
  from pack_fl_separated_inside_ordered [of js_pow sample_packer 2 close_rnd]
  have sep: "\<forall>i<2. \<forall>j<2. i \<noteq> j \<longrightarrow>
        distance_fl ([Circle 0 0 1, ?c] ! i) ([Circle 0 0 1, ?c] ! j)
         \<ge> double (circle_radius ([Circle 0 0 1, ?c] ! i) + circle_radius ([Circle 0 0 1, ?c] ! j))"
    and ins: "\<forall>c\<in>set [Circle 0 0 1, ?c].
        circle_x c + circle_radius c < width (bounds sample_packer) / 2"
    and ord: "\<forall>m\<le>5000. prefix (pack_fl js_pow (sample_packer\<lparr>attempts := m\<rparr>) 2 close_rnd)
        [Circle 0 0 1, ?c]"
    by (simp_all add: close_pack b)
  from sep have "(0::nat) \<noteq> 1 \<longrightarrow> distance_fl ([Circle 0 0 1, ?c] ! 0) ([Circle 0 0 1, ?c] ! 1)
         \<ge> double (circle_radius ([Circle 0 0 1, ?c] ! 0) + circle_radius ([Circle 0 0 1, ?c] ! 1))"
    by (simp only: numeral_2_eq_2 One_nat_def) blast
  then have d: "distance_fl (Circle 0 0 1) ?c \<ge> double (1 + 1)" by simp
  from ins have i: "4500713083484875 / 2 ^ 51 + 1 < width (bounds sample_packer) / 2" by simp
  from ord have "prefix (pack_fl js_pow (sample_packer\<lparr>attempts := 1\<rparr>) 2 close_rnd)
        [Circle 0 0 1, ?c]" by simp
  with d i show ?thesis by (simp add: close_pack)
qed

text \<open>
  C4 as stated fails for the exact distance.  With a bounding square of side 50, radii
  from 1 to 3 and the draws \<open>close_rnd\<close>, the run returns two circles of radius 1 whose
  centres are less than 2 apart, while the distance computed in double precision is 2.
\<close>

theorem pack_fl_exact_overlap_counterexample:
  "pack_fl js_pow sample_packer 2 close_rnd =
     [Circle 0 0 1, Circle (4500713083484875 / 2 ^ 51) (322436621987875 / 2 ^ 52) 1]
   \<and> distance (pack_fl js_pow sample_packer 2 close_rnd ! 1) (pack_fl js_pow sample_packer 2 close_rnd ! 0)
       < circle_radius (pack_fl js_pow sample_packer 2 close_rnd ! 1)
         + circle_radius (pack_fl js_pow sample_packer 2 close_rnd ! 0)
   \<and> distance_fl (pack_fl js_pow sample_packer 2 close_rnd ! 1)
        (pack_fl js_pow sample_packer 2 close_rnd ! 0) = 2"
  unfolding close_pack using close_distance close_distance_fl by simp

section \<open>Properties of the noise field\<close>

lemma to_int32_mod: "to_int32 n mod 256 = n mod 256"
proof -
  have "(256::int) dvd 2 ^ 32" by simp
  then have "((n + 2 ^ 31) mod 2 ^ 32) mod 256 = (n + 2 ^ 31) mod 256"
    by (rule mod_mod_cancel)
  moreover have "(2::int) ^ 31 mod 256 = 0" by simp
  ultimately have "to_int32 n mod 256 = (n + 2 ^ 31 - 2 ^ 31) mod 256"
    unfolding to_int32_def by (metis mod_diff_left_eq)
  then show ?thesis by simp
qed

lemma bit_and_255: "bit_and n 255 = n mod 256"
proof -
  have "(255::int) = mask 8" by (simp add: mask_eq_exp_minus_1)
  moreover have "to_int32 255 = 255" by (simp add: to_int32_def)
  ultimately have "bit_and n 255 = take_bit 8 (to_int32 n)"
    by (simp add: bit_and_def take_bit_eq_mask)
  also have "\<dots> = to_int32 n mod 256" by (simp add: take_bit_eq_mod)
  finally show ?thesis by (simp add: to_int32_mod)
qed

lemma noise_reads_in_range:
  "0 \<le> bit_and n 255 \<and> nat (bit_and n 255 + 1) < 512"
proof -
  have "0 \<le> n mod 256" "n mod 256 < 256" by simp_all
  then show ?thesis unfolding bit_and_255 by linarith
qed

lemma table_nth: "k < 512 \<Longrightarrow> table perm ! k = perm ! (k mod 256)"
  by (simp add: table_def)

lemma bit_and_15: "bit_and n 15 = n mod 16"
proof -
  have "(15::int) = mask 4" by (simp add: mask_eq_exp_minus_1)
  moreover have "to_int32 15 = 15" by (simp add: to_int32_def)
  ultimately have "bit_and n 15 = take_bit 4 (to_int32 n)"
    by (simp add: bit_and_def take_bit_eq_mask)
  also have "\<dots> = to_int32 n mod 16" by (simp add: take_bit_eq_mod)
  also have "\<dots> = (to_int32 n mod 256) mod 16" by (simp add: mod_mod_cancel)
  also have "\<dots> = n mod 16" by (simp add: to_int32_mod mod_mod_cancel)
  finally show ?thesis .
qed

lemma noise_fl_shift:
  "noise_fl p (x + 256) y z = noise_fl p x y z"
  "noise_fl p x (y + 256) z = noise_fl p x y z"
  "noise_fl p x y (z + 256) = noise_fl p x y z"
proof -
  have fl: "\<lfloor>t + 256\<rfloor> = \<lfloor>t\<rfloor> + 256" for t :: real by linarith
  have idx: "bit_and (\<lfloor>t\<rfloor> + 256) 255 = bit_and \<lfloor>t\<rfloor> 255" for t :: real
    by (simp add: bit_and_255)
  have fr: "t + 256 - of_int (\<lfloor>t\<rfloor> + 256) = t - of_int \<lfloor>t\<rfloor>" for t :: real by simp
  show "noise_fl p (x + 256) y z = noise_fl p x y z"
    "noise_fl p x (y + 256) z = noise_fl p x y z"
    "noise_fl p x y (z + 256) = noise_fl p x y z"
    by (simp_all only: noise_fl_def fl idx fr)
qed

lemma lerp_fl_zero: "lerp_fl 0 a b = double a"
  by (simp add: lerp_fl_def double_zero)

lemma fade_fl_zero: "fade_fl 0 = 0"
  by (simp add: fade_fl_def double_zero)

lemma grad_fl_zero: "grad_fl h 0 0 0 = 0"
  by (simp add: grad_fl_def Let_def double_zero)

lemma noise_fl_axis:
  "noise_fl p x 0 0 =
     double (double (lerp_fl (fade_fl (double (x - of_int \<lfloor>x\<rfloor>)))
       (grad_fl (p ! nat (bit_and (p ! nat (bit_and (p ! nat (bit_and \<lfloor>x\<rfloor> 255) + 0) 255) + 0) 255))
          (double (x - of_int \<lfloor>x\<rfloor>)) 0 0)
       (grad_fl (p ! nat (bit_and (p ! nat (bit_and (p ! nat (bit_and \<lfloor>x\<rfloor> 255 + 1) + 0) 255) + 0) 255))
          (double (double (x - of_int \<lfloor>x\<rfloor>) - 1)) 0 0)))"
proof -
  have z: "\<lfloor>0 :: real\<rfloor> = 0" "bit_and 0 255 = 0" "double (0 - of_int 0) = 0"
    by (simp_all add: bit_and_255 double_zero)
  show ?thesis
    unfolding noise_fl_def Let_def z fade_fl_zero lerp_fl_zero ..
qed

lemma noise_fl_at_256: "noise_fl p 256 0 0 = 0"
proof -
  have x: "double (256 - of_int \<lfloor>256 :: real\<rfloor>) = 0" by (simp add: double_zero)
  show ?thesis
    unfolding noise_fl_axis x fade_fl_zero lerp_fl_zero grad_fl_zero by (simp add: double_zero)
qed

lemma tiny_fraction: "double (1 / 2 ^ 60 - of_int \<lfloor>1 / 2 ^ 60 :: real\<rfloor>) = 1 / 2 ^ 60"
proof -
  have "\<lfloor>1 / 2 ^ 60 :: real\<rfloor> = 0" by (simp add: floor_eq_iff)
  then show ?thesis using double_exact [of 1 "- 60"] by simp
qed

lemma tiny_fade: "fade_fl (1 / 2 ^ 60) = 10 / 2 ^ 180"
proof -
  have 1: "double (1 / 2 ^ 60 * (1 / 2 ^ 60)) = 1 / 2 ^ 120"
    using double_exact [of 1 "- 120"] by simp
  have 2: "double (1 / 2 ^ 120 * (1 / 2 ^ 60)) = 1 / 2 ^ 180"
    using double_exact [of 1 "- 180"] by simp
  have 3: "double (1 / 2 ^ 60 * 6) = 6 / 2 ^ 60"
    using double_exact [of 6 "- 60"] by simp
  have 4: "double (6 / 2 ^ 60 - 15) = - 15"
    using double_eval [of 3 "6 / 2 ^ 60 - 15" "- 15 * 2 ^ 49"] by simp
  have 5: "double (1 / 2 ^ 60 * - 15) = - 15 / 2 ^ 60"
    using double_exact [of "- 15" "- 60"] by simp
  have 6: "double (- 15 / 2 ^ 60 + 10) = 10"
    using double_eval [of 3 "- 15 / 2 ^ 60 + 10" "10 * 2 ^ 49"] by simp
  have 7: "double (1 / 2 ^ 180 * 10) = 10 / 2 ^ 180"
    using double_exact [of 10 "- 180"] by simp
  show ?thesis unfolding fade_fl_def 1 2 3 4 5 6 7 ..
qed

lemma tiny_lookups:
  "table permutation ! nat (bit_and (table permutation ! nat (bit_and
      (table permutation ! nat (bit_and \<lfloor>1 / 2 ^ 60 :: real\<rfloor> 255) + 0) 255) + 0) 255) = 36"
  "table permutation ! nat (bit_and (table permutation ! nat (bit_and
      (table permutation ! nat (bit_and \<lfloor>1 / 2 ^ 60 :: real\<rfloor> 255 + 1) + 0) 255) + 0) 255) = 86"
proof -
  have f: "\<lfloor>1 / 2 ^ 60 :: real\<rfloor> = 0" by (simp add: floor_eq_iff)
  have t: "table permutation ! 0 = 151" "table permutation ! Suc 0 = 160"
    "table permutation ! 151 = 17" "table permutation ! 160 = 119"
    "table permutation ! 17 = 36" "table permutation ! 119 = 86"
    by (simp_all add: table_nth permutation_def)
  show "table permutation ! nat (bit_and (table permutation ! nat (bit_and
      (table permutation ! nat (bit_and \<lfloor>1 / 2 ^ 60 :: real\<rfloor> 255) + 0) 255) + 0) 255) = 36"
    by (simp add: f bit_and_255 t)
  show "table permutation ! nat (bit_and (table permutation ! nat (bit_and
      (table permutation ! nat (bit_and \<lfloor>1 / 2 ^ 60 :: real\<rfloor> 255 + 1) + 0) 255) + 0) 255) = 86"
    by (simp add: f bit_and_255 t)
qed

lemma tiny_grads:
  "grad_fl 36 (1 / 2 ^ 60) 0 0 = 1 / 2 ^ 60"
  "grad_fl 86 (- 1) 0 0 = - 1"
proof -
  have h: "bit_and 36 15 = 4" "bit_and 86 15 = 6" by (simp_all add: bit_and_15)
  have b: "bit_and 4 1 = 0" "bit_and 4 2 = 0" "bit_and 6 1 = 0" "bit_and 6 2 = 2"
    by (simp_all add: bit_and_def to_int32_def)
  have d: "double (1 / 2 ^ 60) = 1 / 2 ^ 60" "double (- 1) = - 1"
    using double_exact [of 1 "- 60"] double_int [of "- 1"] by simp_all
  show "grad_fl 36 (1 / 2 ^ 60) 0 0 = 1 / 2 ^ 60"
    unfolding grad_fl_def Let_def h b using d(1) by simp
  show "grad_fl 86 (- 1) 0 0 = - 1"
    unfolding grad_fl_def Let_def h b using d(2) by simp
qed

lemma noise_fl_at_tiny: "noise_fl (table permutation) (1 / 2 ^ 60) 0 0 = 1 / 2 ^ 60"
proof -
  have 1: "double (1 / 2 ^ 60 - 1) = - 1"
    using double_eval [of "- 1" "1 / 2 ^ 60 - 1" "- (2 ^ 53)"] by simp
  have 2: "double (- 1 - 1 / 2 ^ 60) = - 1"
    using double_eval [of 0 "- 1 - 1 / 2 ^ 60" "- (2 ^ 52)"] by simp
  have 3: "double (10 / 2 ^ 180 * - 1) = - 10 / 2 ^ 180"
    using double_exact [of "- 10" "- 180"] by simp
  have 4: "double (1 / 2 ^ 60 + - 10 / 2 ^ 180) = 1 / 2 ^ 60"
    using double_eval [of "- 61" "1 / 2 ^ 60 + - 10 / 2 ^ 180" "2 ^ 53"] by simp
  have 5: "double (1 / 2 ^ 60) = 1 / 2 ^ 60"
    using double_exact [of 1 "- 60"] by simp
  show ?thesis
    unfolding noise_fl_axis tiny_fraction tiny_fade tiny_lookups 1 tiny_grads lerp_fl_def 2 3 4 5 ..
qed

text \<open>
  C10, amended.  Over any table, the noise function in double precision takes the same
  value at \<open>x\<close> and at the real number \<open>x + 256\<close>, and likewise in \<open>y\<close> and \<open>z\<close>: the
  lattice indices are taken modulo 256 and the fractional parts do not change.  So
  \<^verbatim>\<open>noise(x + 256, y, z) = noise(x, y, z)\<close> holds whenever the sum \<^verbatim>\<open>x + 256\<close> is exact in
  double precision, and likewise for \<^verbatim>\<open>y + 256\<close> and \<^verbatim>\<open>z + 256\<close>.
\<close>

theorem noise_periodic_exact_shift:
  "noise_fl p (x + 256) y z = noise_fl p x y z
   \<and> noise_fl p x (y + 256) z = noise_fl p x y z
   \<and> noise_fl p x y (z + 256) = noise_fl p x y z
   \<and> (double (x + 256) = x + 256 \<longrightarrow> noise_fl p (double (x + 256)) y z = noise_fl p x y z)
   \<and> (double (y + 256) = y + 256 \<longrightarrow> noise_fl p x (double (y + 256)) z = noise_fl p x y z)
   \<and> (double (z + 256) = z + 256 \<longrightarrow> noise_fl p x y (double (z + 256)) = noise_fl p x y z)"
  by (simp add: noise_fl_shift)

theorem noise_periodic_exact_shift_witness:
  "double (1 / 2 + 256) = 1 / 2 + 256
   \<and> double (1 / 4 + 256) = 1 / 4 + 256
   \<and> double (3 + 256) = 3 + 256
   \<and> noise_fl (table permutation) (double (1 / 2 + 256)) (1 / 4) 3
       = noise_fl (table permutation) (1 / 2) (1 / 4) 3
   \<and> noise_fl (table permutation) (1 / 2) (double (1 / 4 + 256)) 3
       = noise_fl (table permutation) (1 / 2) (1 / 4) 3
   \<and> noise_fl (table permutation) (1 / 2) (1 / 4) (double (3 + 256))
       = noise_fl (table permutation) (1 / 2) (1 / 4) 3"
proof -
  have a: "double (1 / 2 + 256) = 1 / 2 + 256"
    using double_exact [of 513 "- 1"] by simp
  have b: "double (1 / 4 + 256) = 1 / 4 + 256"
    using double_exact [of 1025 "- 2"] by simp
  have c: "double (3 + 256) = 3 + 256"
    using double_int [of 259] by simp
  from a b c noise_periodic_exact_shift [of "table permutation" "1 / 2" "1 / 4" 3]
  show ?thesis by simp
qed

text \<open>
  C10 as stated fails where the sum is rounded.  For \<open>x = 1 / 2 ^ 60\<close> the sum
  \<^verbatim>\<open>x + 256\<close> is 256 in double precision; over the table of line 85 the noise at
  \<open>(256, 0, 0)\<close> is 0 and the noise at \<open>(x, 0, 0)\<close> is \<open>1 / 2 ^ 60\<close>.
\<close>

theorem noise_shift_counterexample:
  "double (1 / 2 ^ 60 + 256) = 256
   \<and> noise_fl (table permutation) (double (1 / 2 ^ 60 + 256)) 0 0 = 0
   \<and> noise_fl (table permutation) (1 / 2 ^ 60) 0 0 = 1 / 2 ^ 60
   \<and> noise_fl (table permutation) (double (1 / 2 ^ 60 + 256)) 0 0
       \<noteq> noise_fl (table permutation) (1 / 2 ^ 60) 0 0"
proof -
  have s: "double (1 / 2 ^ 60 + 256) = 256"
    using double_eval [of 8 "1 / 2 ^ 60 + 256" "2 ^ 52"] by simp
  show ?thesis unfolding s noise_fl_at_256 noise_fl_at_tiny by simp
qed

section \<open>Properties of the frame extrusion generator\<close>

lemma ticks_stop: "\<not> lo \<le> hi \<Longrightarrow> ticks lo hi step = []"
  by (simp add: ticks_def)

lemma ticks_step:
  assumes "0 < step" and "lo \<le> hi"
  shows "ticks lo hi step = lo # ticks (lo + step) hi step"
proof (cases "lo + step \<le> hi")
  case True
  have "(hi - lo) / step = (hi - (lo + step)) / step + 1"
    using assms(1) by (simp add: field_simps)
  then have fl: "\<lfloor>(hi - lo) / step\<rfloor> = \<lfloor>(hi - (lo + step)) / step\<rfloor> + 1" by simp
  define q where "q = \<lfloor>(hi - (lo + step)) / step\<rfloor>"
  have "0 \<le> (hi - (lo + step)) / step" using True assms(1) by simp
  then have "0 \<le> q" unfolding q_def by (simp only: zero_le_floor)
  then have "nat (q + 1) = Suc (nat q)" by linarith
  with fl have n: "nat \<lfloor>(hi - lo) / step\<rfloor> = Suc (nat \<lfloor>(hi - (lo + step)) / step\<rfloor>)"
    by (simp only: q_def)
  have "map (\<lambda>k. lo + real k * step) [0..<Suc (Suc (nat \<lfloor>(hi - (lo + step)) / step\<rfloor>))]
      = lo # map (\<lambda>k. lo + step + real k * step) [0..<Suc (nat \<lfloor>(hi - (lo + step)) / step\<rfloor>)]"
    by (simp only: upt_conv_Cons [of 0] map_Suc_upt [symmetric] list.map) (simp add: algebra_simps)
  then show ?thesis using True assms(2) n by (simp add: ticks_def)
next
  case False
  then have "(hi - lo) / step < 1" using assms(1) by (simp add: field_simps)
  moreover have "0 \<le> (hi - lo) / step" using assms by simp
  ultimately have "\<lfloor>(hi - lo) / step\<rfloor> = 0" by linarith
  then show ?thesis using False assms(2) by (simp add: ticks_def)
qed

lemma for_loop_ticks:
  assumes "0 < step"
  shows "for_loop lo hi step body s = run body (ticks lo hi step) s"
proof (induction "length (ticks lo hi step)" arbitrary: lo s)
  case 0
  then have "\<not> lo \<le> hi" by (auto simp: ticks_def split: if_splits)
  then show ?case by (simp add: for_loop.simps [of lo] ticks_stop)
next
  case (Suc n)
  then have le: "lo \<le> hi" by (auto simp: ticks_def split: if_splits)
  then have t: "ticks lo hi step = lo # ticks (lo + step) hi step"
    using assms by (intro ticks_step)
  with Suc(2) have "n = length (ticks (lo + step) hi step)" by simp
  then have "for_loop (lo + step) hi step body s' = run body (ticks (lo + step) hi step) s'" for s'
    by (rule Suc(1))
  then have "(\<lambda>s'. for_loop (lo + step) hi step body s') = run body (ticks (lo + step) hi step)"
    by (intro ext)
  then show ?case using le by (subst for_loop.simps) (simp add: t)
qed

lemma ticks_frame: "0 < s \<Longrightarrow> ticks (- (s * 4) / 2) (s * 4 / 2) s = [- 2 * s, - s, 0, s, 2 * s]"
  by (simp add: ticks_def upt_rec [of _ 5] upt_rec [of _ 4] upt_rec [of _ 3] upt_rec [of _ 2] upt_rec [of _ 1] eval_nat_numeral)

lemma run_total: "run (\<lambda>v s. Some (g v s)) vs s = Some (fold g vs s)"
  by (induction vs arbitrary: s) simp_all

lemma frame_cell_xy:
  "box_x (frame_cell p thr sz x y) = x \<and> box_y (frame_cell p thr sz x y) = y"
  by (simp add: frame_cell_def createCube_def Let_def split: prod.splits)

lemma push_cube_positions:
  "frame_positions (push_cube c f) = insert (box_x c, box_y c) (frame_positions f)"
  by (auto simp: frame_positions_def push_cube_def)

lemma push_cube_count: "cube_count (push_cube c f) = Suc (cube_count f)"
  by (simp add: cube_count_def push_cube_def)

lemma frame_point_positions:
  "frame_positions (frame_point p thr side sz x y f) =
     (if on_edge side x y then insert (x, y) (frame_positions f) else frame_positions f)"
  by (simp add: frame_point_def on_edge_def push_cube_positions frame_cell_xy)

lemma frame_point_count:
  "cube_count (frame_point p thr side sz x y f) =
     (if on_edge side x y then Suc (cube_count f) else cube_count f)"
  by (simp add: frame_point_def on_edge_def push_cube_count)

lemma column_positions:
  "frame_positions (fold (frame_point p thr side sz x) ys f) =
     frame_positions f \<union> {(x, y) | y. y \<in> set ys \<and> on_edge side x y}"
  by (induction ys arbitrary: f) (auto simp: frame_point_positions)

lemma column_count:
  "cube_count (fold (frame_point p thr side sz x) ys f) =
     cube_count f + length (filter (on_edge side x) ys)"
  by (induction ys arbitrary: f) (auto simp: frame_point_count)

lemma grid_positions:
  "frame_positions (fold (\<lambda>x. fold (frame_point p thr side sz x) ys) xs f) =
     frame_positions f \<union> {(x, y). x \<in> set xs \<and> y \<in> set ys \<and> on_edge side x y}"
  by (induction xs arbitrary: f) (auto simp: column_positions)

lemma grid_count:
  "cube_count (fold (\<lambda>x. fold (frame_point p thr side sz x) ys) xs f) =
     cube_count f + (\<Sum>x\<leftarrow>xs. length (filter (on_edge side x) ys))"
  by (induction xs arbitrary: f) (auto simp: column_count)

lemma drawCubeFrame_fold:
  assumes "0 < sz"
  shows "drawCubeFrame p thr side sz =
     Some (fold (\<lambda>x. fold (frame_point p thr side sz x) (ticks (- side / 2) (side / 2) sz))
             (ticks (- side / 2) (side / 2) sz) \<lparr>lightCubes = [], darkCubes = []\<rparr>)"
proof -
  have inner: "for_loop (- side / 2) (side / 2) sz (\<lambda>y f. Some (frame_point p thr side sz x y f))
      = (\<lambda>f. Some (fold (frame_point p thr side sz x) (ticks (- side / 2) (side / 2) sz) f))" for x
    by (intro ext) (simp only: for_loop_ticks [OF assms] run_total)
  show ?thesis
    unfolding drawCubeFrame_def inner
    by (simp only: for_loop_ticks [OF assms] run_total)
qed

lemma frame_edge_count:
  assumes "0 < s"
  shows "(\<Sum>x\<leftarrow>[- 2 * s, - s, 0, s, 2 * s].
            length (filter (on_edge (s * 4) x) [- 2 * s, - s, 0, s, 2 * s])) = 16"
  using assms by (simp add: on_edge_def)

lemma frame_scan:
  assumes "0 < i"
  shows "\<exists>f. drawCubeFrame p thr (i * 4) i = Some f
    \<and> frame_positions f =
        {(x, y). x \<in> set (frame_lattice i) \<and> y \<in> set (frame_lattice i) \<and>
                 (x = - 2 * i \<or> x = 2 * i \<or> y = - 2 * i \<or> y = 2 * i)}
    \<and> cube_count f = 16"
proof -
  let ?L = "[- 2 * i, - i, 0, i, 2 * i]"
  let ?f = "fold (\<lambda>x. fold (frame_point p thr (i * 4) i x) ?L) ?L \<lparr>lightCubes = [], darkCubes = []\<rparr>"
  have "drawCubeFrame p thr (i * 4) i = Some ?f"
    by (simp only: drawCubeFrame_fold [OF assms] ticks_frame [OF assms])
  moreover have "frame_positions ?f =
        {(x, y). x \<in> set ?L \<and> y \<in> set ?L \<and> (x = - 2 * i \<or> x = 2 * i \<or> y = - 2 * i \<or> y = 2 * i)}"
    unfolding grid_positions by (auto simp: frame_positions_def on_edge_def)
  moreover have "cube_count ?f = 16"
    unfolding grid_count frame_edge_count [OF assms] by (simp add: cube_count_def)
  ultimately show ?thesis unfolding frame_lattice_def by blast
qed

lemma run_collect:
  assumes "\<forall>i\<in>set is. drawCubeFrame p thr (i * 4) i = Some (F i)"
  shows "run (collect_frame p thr) is all =
     Some \<lparr>lightCubes = lightCubes all @ concat (map (\<lambda>i. lightCubes (F i)) is),
           darkCubes = darkCubes all @ concat (map (\<lambda>i. darkCubes (F i)) is)\<rparr>"
  using assms by (induction "is" arbitrary: all) (simp_all add: collect_frame_def)

lemma ticks_nth:
  "k < length (ticks lo hi step) \<Longrightarrow> ticks lo hi step ! k = lo + real k * step"
  by (simp add: ticks_def)

lemma ticks_bound:
  assumes "0 < step" and "k < length (ticks lo hi step)"
  shows "lo + real k * step \<le> hi"
proof -
  from assms(2) have le: "lo \<le> hi" and k: "k \<le> nat \<lfloor>(hi - lo) / step\<rfloor>"
    by (auto simp: ticks_def split: if_splits)
  have "0 \<le> (hi - lo) / step" using le assms(1) by simp
  then have "0 \<le> \<lfloor>(hi - lo) / step\<rfloor>" by (simp only: zero_le_floor)
  with k have "real k \<le> real_of_int \<lfloor>(hi - lo) / step\<rfloor>" by linarith
  also have "\<dots> \<le> (hi - lo) / step" by (rule of_int_floor_le)
  finally have "real k * step \<le> hi - lo" using assms(1) by (simp add: field_simps)
  then show ?thesis by simp
qed

text \<open>
  C9, amended.  With positive \<open>iSet\<close> and \<open>iPlus\<close> the frames are made for the values
  \<open>i = iSet + k * iPlus\<close> that do not exceed 65, in this order.  The frame of \<open>i\<close> is
  the square grid of side length \<open>4 * i\<close> scanned at step \<open>i\<close>: five lattice
  coordinates \<open>-2 i, -i, 0, i, 2 i\<close> on each axis, of which the 16 points on the four
  edges get a cube.
\<close>

theorem frames_scan:
  assumes "0 < iSet" and "0 < iPlus"
  shows "\<exists>fs. collect_frames p thr iSet iPlus =
        Some \<lparr>lightCubes = concat (map lightCubes fs), darkCubes = concat (map darkCubes fs)\<rparr>
    \<and> length fs = (if iSet \<le> 65 then nat \<lfloor>(65 - iSet) / iPlus\<rfloor> + 1 else 0)
    \<and> (\<forall>k<length fs.
          iSet + real k * iPlus \<le> 65
        \<and> drawCubeFrame p thr ((iSet + real k * iPlus) * 4) (iSet + real k * iPlus) = Some (fs ! k)
        \<and> frame_positions (fs ! k) =
            {(x, y). x \<in> set (frame_lattice (iSet + real k * iPlus)) \<and>
                     y \<in> set (frame_lattice (iSet + real k * iPlus)) \<and>
                     (x = - 2 * (iSet + real k * iPlus) \<or> x = 2 * (iSet + real k * iPlus) \<or>
                      y = - 2 * (iSet + real k * iPlus) \<or> y = 2 * (iSet + real k * iPlus))}
        \<and> cube_count (fs ! k) = 16)"
proof -
  define F where "F i = (SOME f. drawCubeFrame p thr (i * 4) i = Some f
    \<and> frame_positions f =
        {(x, y). x \<in> set (frame_lattice i) \<and> y \<in> set (frame_lattice i) \<and>
                 (x = - 2 * i \<or> x = 2 * i \<or> y = - 2 * i \<or> y = 2 * i)}
    \<and> cube_count f = 16)" for i
  have F: "drawCubeFrame p thr (i * 4) i = Some (F i)
    \<and> frame_positions (F i) =
        {(x, y). x \<in> set (frame_lattice i) \<and> y \<in> set (frame_lattice i) \<and>
                 (x = - 2 * i \<or> x = 2 * i \<or> y = - 2 * i \<or> y = 2 * i)}
    \<and> cube_count (F i) = 16" if "0 < i" for i
    unfolding F_def using frame_scan [OF that, of p thr] by (rule someI_ex)
  let ?is = "ticks iSet 65 iPlus"
  let ?fs = "map F ?is"
  have pos: "0 < i" if "i \<in> set ?is" for i
  proof -
    from that obtain k where "i = iSet + real k * iPlus" by (auto simp: ticks_def)
    then show ?thesis using assms by (simp add: add_pos_nonneg)
  qed
  have "collect_frames p thr iSet iPlus =
      run (collect_frame p thr) ?is \<lparr>lightCubes = [], darkCubes = []\<rparr>"
    unfolding collect_frames_def by (rule for_loop_ticks [OF assms(2)])
  also have "\<dots> = Some \<lparr>lightCubes = [] @ concat (map (\<lambda>i. lightCubes (F i)) ?is),
                          darkCubes = [] @ concat (map (\<lambda>i. darkCubes (F i)) ?is)\<rparr>"
    using run_collect [of ?is p thr F "\<lparr>lightCubes = [], darkCubes = []\<rparr>"] pos F by simp
  finally have res: "collect_frames p thr iSet iPlus =
      Some \<lparr>lightCubes = concat (map lightCubes ?fs), darkCubes = concat (map darkCubes ?fs)\<rparr>"
    by (simp add: comp_def)
  have len: "length ?fs = (if iSet \<le> 65 then nat \<lfloor>(65 - iSet) / iPlus\<rfloor> + 1 else 0)"
    by (simp add: ticks_def)
  have each: "iSet + real k * iPlus \<le> 65
        \<and> drawCubeFrame p thr ((iSet + real k * iPlus) * 4) (iSet + real k * iPlus) = Some (?fs ! k)
        \<and> frame_positions (?fs ! k) =
            {(x, y). x \<in> set (frame_lattice (iSet + real k * iPlus)) \<and>
                     y \<in> set (frame_lattice (iSet + real k * iPlus)) \<and>
                     (x = - 2 * (iSet + real k * iPlus) \<or> x = 2 * (iSet + real k * iPlus) \<or>
                      y = - 2 * (iSet + real k * iPlus) \<or> y = 2 * (iSet + real k * iPlus))}
        \<and> cube_count (?fs ! k) = 16" if "k < length ?fs" for k
  proof -
    from that have k: "k < length ?is" by simp
    then have nth: "?fs ! k = F (iSet + real k * iPlus)" by (simp add: ticks_nth)
    have "0 < iSet + real k * iPlus" using assms by (simp add: add_pos_nonneg)
    from F [OF this] ticks_bound [OF assms(2) k] show ?thesis unfolding nth by simp
  qed
  from res len each show ?thesis by blast
qed

lemma fade_square: "t * (t * 6 - 15) + 10 = 6 * (t - 5 / 4)\<^sup>2 + 5 / 8" for t :: real
  by (simp add: power2_eq_square algebra_simps)

lemma fade_nonneg: "0 \<le> t \<Longrightarrow> 0 \<le> fade t"
proof -
  assume t: "0 \<le> t"
  have "0 \<le> t * (t * 6 - 15) + 10" unfolding fade_square by simp
  with t show ?thesis unfolding fade_def by (intro mult_nonneg_nonneg) simp_all
qed

lemma fade_mirror: "fade (1 - t) = 1 - fade t"
  by (simp add: fade_def algebra_simps)

lemma fade_le_one: "t \<le> 1 \<Longrightarrow> fade t \<le> 1"
  using fade_nonneg [of "1 - t"] by (simp add: fade_mirror)

lemma fade_centre:
  "fade t - 1 / 2 = (t - 1 / 2) * (6 * (t * (1 - t))\<^sup>2 + 2 * (t * (1 - t)) + 1)"
  by (simp add: fade_def power2_eq_square algebra_simps)

lemma blend_le_half:
  assumes "0 \<le> a" and "a \<le> 1"
  shows "a + fade a * (1 - 2 * a) \<le> 1 / 2"
proof -
  define q where "q = 6 * (a * (1 - a))\<^sup>2 + 2 * (a * (1 - a)) + 1"
  have q: "0 \<le> q" using assms by (simp add: q_def)
  have "a + fade a * (1 - 2 * a) - 1 / 2 = - 2 * ((a - 1 / 2) * (fade a - 1 / 2))"
    by (simp add: algebra_simps)
  also have "\<dots> = - 2 * ((a - 1 / 2)\<^sup>2 * q)"
    unfolding fade_centre q_def by (simp add: power2_eq_square algebra_simps)
  also have "\<dots> \<le> 0" using q by simp
  finally show ?thesis by simp
qed

lemma grad_flat: "\<bar>grad h x y 0\<bar> \<le> \<bar>x\<bar> + \<bar>y\<bar>"
  by (auto simp: grad_def Let_def)

lemma lerp_zero: "lerp 0 a b = a"
  by (simp add: lerp_def)

lemma blend_lower:
  assumes u: "0 \<le> u" "u \<le> 1" and v: "0 \<le> v" "v \<le> 1"
    and g: "- b1 \<le> g1" "- b2 \<le> g2" "- b3 \<le> g3" "- b4 \<le> g4"
  shows "- (lerp v (lerp u b1 b2) (lerp u b3 b4)) \<le> lerp v (lerp u g1 g2) (lerp u g3 g4)"
proof -
  have e: "lerp v (lerp u c1 c2) (lerp u c3 c4) =
      (1 - v) * ((1 - u) * c1) + (1 - v) * (u * c2) + v * ((1 - u) * c3) + v * (u * c4)"
    for c1 c2 c3 c4
    by (simp add: lerp_def algebra_simps)
  have "(1 - v) * ((1 - u) * (- b1)) \<le> (1 - v) * ((1 - u) * g1)"
    using u v g(1) by (intro mult_left_mono) simp_all
  moreover have "(1 - v) * (u * (- b2)) \<le> (1 - v) * (u * g2)"
    using u v g(2) by (intro mult_left_mono) simp_all
  moreover have "v * ((1 - u) * (- b3)) \<le> v * ((1 - u) * g3)"
    using u v g(3) by (intro mult_left_mono) simp_all
  moreover have "v * (u * (- b4)) \<le> v * (u * g4)"
    using u v g(4) by (intro mult_left_mono) simp_all
  ultimately show ?thesis unfolding e by (simp add: algebra_simps)
qed

lemma blend_sum:
  "lerp v (lerp u (a + b) ((1 - a) + b)) (lerp u (a + (1 - b)) ((1 - a) + (1 - b)))
     = (a + u * (1 - 2 * a)) + (b + v * (1 - 2 * b))"
  by (simp add: lerp_def algebra_simps)

lemma noise_flat_lower:
  fixes x y :: real
  defines "xf \<equiv> x - of_int \<lfloor>x\<rfloor>" and "yf \<equiv> y - of_int \<lfloor>y\<rfloor>"
  shows "- ((xf + fade xf * (1 - 2 * xf)) + (yf + fade yf * (1 - 2 * yf)))
           \<le> noise p x y (of_int k)"
proof -
  have xf: "0 \<le> xf" "xf \<le> 1" and yf: "0 \<le> yf" "yf \<le> 1"
    unfolding xf_def yf_def by linarith+
  have zf: "real_of_int k - of_int \<lfloor>real_of_int k\<rfloor> = 0" by simp
  have g1: "- (xf + yf) \<le> grad h xf yf 0" for h
    using grad_flat [of h xf yf] xf yf by linarith
  have g2: "- ((1 - xf) + yf) \<le> grad h (xf - 1) yf 0" for h
    using grad_flat [of h "xf - 1" yf] xf yf by linarith
  have g3: "- (xf + (1 - yf)) \<le> grad h xf (yf - 1) 0" for h
    using grad_flat [of h xf "yf - 1"] xf yf by linarith
  have g4: "- ((1 - xf) + (1 - yf)) \<le> grad h (xf - 1) (yf - 1) 0" for h
    using grad_flat [of h "xf - 1" "yf - 1"] xf yf by linarith
  have u: "0 \<le> fade xf" "fade xf \<le> 1" using xf by (simp_all add: fade_nonneg fade_le_one)
  have v: "0 \<le> fade yf" "fade yf \<le> 1" using yf by (simp_all add: fade_nonneg fade_le_one)
  have f0: "fade 0 = 0" by (simp add: fade_def)
  show ?thesis
    unfolding noise_def Let_def zf f0 lerp_zero xf_def [symmetric] yf_def [symmetric]
    using blend_lower [OF u v g1 g2 g3 g4] unfolding blend_sum .
qed

lemma fifth_fraction:
  "real_of_int n / 5 - of_int \<lfloor>real_of_int n / 5\<rfloor> \<in> {0, 1 / 5, 2 / 5, 3 / 5, 4 / 5}"
proof -
  have fl: "\<lfloor>real_of_int n / 5\<rfloor> = n div 5"
    using floor_divide_of_int_eq [of n 5, where ?'a = real] by simp
  have "n = 5 * (n div 5) + n mod 5" by simp
  then have "real_of_int n = 5 * real_of_int (n div 5) + real_of_int (n mod 5)"
    by (metis of_int_add of_int_mult of_int_numeral)
  then have "real_of_int n / 5 = real_of_int (n div 5) + real_of_int (n mod 5) / 5"
    by simp
  then have fr: "real_of_int n / 5 - of_int \<lfloor>real_of_int n / 5\<rfloor> = real_of_int (n mod 5) / 5"
    unfolding fl by linarith
  have "n mod 5 = 0 \<or> n mod 5 = 1 \<or> n mod 5 = 2 \<or> n mod 5 = 3 \<or> n mod 5 = 4"
    by presburger
  then show ?thesis unfolding fr by auto
qed

lemma blend_fifth:
  assumes "a \<in> {0, 1 / 5, 2 / 5, 3 / 5, 4 / 5 :: real}"
  shows "a + fade a * (1 - 2 * a) \<le> 7242 / 15625"
  using assms by (elim insertE emptyE; hypsubst; simp add: fade_def)

lemma blend_unit:
  fixes y :: real
  shows "(y - of_int \<lfloor>y\<rfloor>) + fade (y - of_int \<lfloor>y\<rfloor>) * (1 - 2 * (y - of_int \<lfloor>y\<rfloor>)) \<le> 1 / 2"
  by (rule blend_le_half) linarith+

lemma normalised_sample_lower:
  assumes "\<bar>x\<bar> = 2 * of_int n \<or> \<bar>y\<bar> = 2 * of_int n"
  shows "1141 / 62500 \<le> normalised_sample p (of_int k) x y"
proof -
  let ?B = "\<lambda>t :: real. (t - of_int \<lfloor>t\<rfloor>) + fade (t - of_int \<lfloor>t\<rfloor>) * (1 - 2 * (t - of_int \<lfloor>t\<rfloor>))"
  have low: "- (?B (\<bar>x\<bar> / 10) + ?B (\<bar>y\<bar> / 10)) \<le> noise p (\<bar>x\<bar> / 10) (\<bar>y\<bar> / 10) (of_int k)"
    by (rule noise_flat_lower)
  have edge: "?B (2 * real_of_int n / 10) \<le> 7242 / 15625"
  proof -
    have "2 * real_of_int n / 10 = real_of_int n / 5" by simp
    then show ?thesis using blend_fifth [OF fifth_fraction [of n]] by (simp only:)
  qed
  from assms have sum: "?B (\<bar>x\<bar> / 10) + ?B (\<bar>y\<bar> / 10) \<le> 7242 / 15625 + 1 / 2"
  proof
    assume "\<bar>x\<bar> = 2 * of_int n"
    with edge have "?B (\<bar>x\<bar> / 10) \<le> 7242 / 15625" by (simp only:)
    with blend_unit [of "\<bar>y\<bar> / 10"] show ?thesis by linarith
  next
    assume "\<bar>y\<bar> = 2 * of_int n"
    with edge have "?B (\<bar>y\<bar> / 10) \<le> 7242 / 15625" by (simp only:)
    with blend_unit [of "\<bar>x\<bar> / 10"] show ?thesis by linarith
  qed
  then have "- (7242 / 15625 + 1 / 2) \<le> - (?B (\<bar>x\<bar> / 10) + ?B (\<bar>y\<bar> / 10))"
    by (simp only: neg_le_iff_le)
  then have "- (7242 / 15625 + 1 / 2) \<le> noise p (\<bar>x\<bar> / 10) (\<bar>y\<bar> / 10) (of_int k)"
    using low by (rule order_trans)
  then show ?thesis unfolding normalised_sample_def by simp
qed

lemma fold_invariant:
  assumes "\<And>x s. P s \<Longrightarrow> P (g x s)" and "P s"
  shows "P (fold g xs s)"
  using assms(2) by (induction xs arbitrary: s) (simp_all add: assms(1))

lemma push_cube_classes:
  assumes "(\<forall>c\<in>set (lightCubes f). \<not> box_dark c \<and> Q c) \<and> (\<forall>c\<in>set (darkCubes f). box_dark c \<and> Q c)"
    and "Q c0"
  shows "(\<forall>c\<in>set (lightCubes (push_cube c0 f)). \<not> box_dark c \<and> Q c)
       \<and> (\<forall>c\<in>set (darkCubes (push_cube c0 f)). box_dark c \<and> Q c)"
  using assms by (auto simp: push_cube_def)

lemma frame_point_classes:
  fixes i thr :: real and p :: "int list"
  defines "Q \<equiv> \<lambda>c. (\<bar>box_x c\<bar> = 2 * i \<or> \<bar>box_y c\<bar> = 2 * i) \<and> c = frame_cell p thr i (box_x c) (box_y c)"
  assumes "0 < i"
    and "(\<forall>c\<in>set (lightCubes f). \<not> box_dark c \<and> Q c) \<and> (\<forall>c\<in>set (darkCubes f). box_dark c \<and> Q c)"
  shows "(\<forall>c\<in>set (lightCubes (frame_point p thr (i * 4) i x y f)). \<not> box_dark c \<and> Q c)
       \<and> (\<forall>c\<in>set (darkCubes (frame_point p thr (i * 4) i x y f)). box_dark c \<and> Q c)"
proof (cases "x = - (i * 4) / 2 \<or> x = i * 4 / 2 \<or> y = - (i * 4) / 2 \<or> y = i * 4 / 2")
  case True
  with assms(2) have "\<bar>x\<bar> = 2 * i \<or> \<bar>y\<bar> = 2 * i" by auto
  then have "Q (frame_cell p thr i x y)" unfolding Q_def by (simp add: frame_cell_xy)
  from push_cube_classes [OF assms(3) this] True show ?thesis by (simp add: frame_point_def)
next
  case False
  with assms(3) show ?thesis by (simp add: frame_point_def)
qed

lemma drawCubeFrame_classes:
  fixes i :: real
  assumes "0 < i"
  shows "\<exists>f. drawCubeFrame p thr (i * 4) i = Some f
     \<and> (\<forall>c\<in>set (lightCubes f). \<not> box_dark c
           \<and> (\<bar>box_x c\<bar> = 2 * i \<or> \<bar>box_y c\<bar> = 2 * i) \<and> c = frame_cell p thr i (box_x c) (box_y c))
     \<and> (\<forall>c\<in>set (darkCubes f). box_dark c
           \<and> (\<bar>box_x c\<bar> = 2 * i \<or> \<bar>box_y c\<bar> = 2 * i) \<and> c = frame_cell p thr i (box_x c) (box_y c))"
proof -
  define P where "P (f :: frame) \<longleftrightarrow>
      (\<forall>c\<in>set (lightCubes f). \<not> box_dark c
           \<and> (\<bar>box_x c\<bar> = 2 * i \<or> \<bar>box_y c\<bar> = 2 * i) \<and> c = frame_cell p thr i (box_x c) (box_y c))
    \<and> (\<forall>c\<in>set (darkCubes f). box_dark c
           \<and> (\<bar>box_x c\<bar> = 2 * i \<or> \<bar>box_y c\<bar> = 2 * i) \<and> c = frame_cell p thr i (box_x c) (box_y c))"
    for f
  define L where "L = ticks (- (i * 4) / 2) (i * 4 / 2) i"
  have pt: "P (frame_point p thr (i * 4) i x y f)" if "P f" for x y f
    using frame_point_classes [OF assms, of f p thr x y] that unfolding P_def by blast
  have col: "P (fold (frame_point p thr (i * 4) i x) L f)" if "P f" for x f
    using pt that by (rule fold_invariant)
  have "P \<lparr>lightCubes = [], darkCubes = []\<rparr>" unfolding P_def by simp
  with col have "P (fold (\<lambda>x. fold (frame_point p thr (i * 4) i x) L) L \<lparr>lightCubes = [], darkCubes = []\<rparr>)"
    by (rule fold_invariant)
  moreover have "drawCubeFrame p thr (i * 4) i =
      Some (fold (\<lambda>x. fold (frame_point p thr (i * 4) i x) L) L \<lparr>lightCubes = [], darkCubes = []\<rparr>)"
    unfolding L_def by (rule drawCubeFrame_fold [OF assms])
  ultimately show ?thesis unfolding P_def by blast
qed

lemma frame_cell_classes:
  "frame_cell p thr sz x y =
     (if raw_sample p x y > thr
      then createCube x y (sz / 30 * 15 * normalised_sample p sz x y) sz
             (sz / 30 * 30 * normalised_sample p sz x y) False
      else createCube x y (sz / 30 * 5 * normalised_sample p sz x y) sz
             (sz / 30 * 10 * normalised_sample p sz x y) True)"
  by (simp add: frame_cell_def Let_def extrusion_def normalised_sample_def raw_sample_def)

lemma floored_taller:
  fixes s t :: real
  assumes "1 \<le> s" and "1141 / 62500 \<le> t"
  shows "s / 30 * 10 * t < s / 30 * 30 * t"
    and "box_depth (createCube x' y' z' s (s / 30 * 10 * t) True)
           < box_depth (createCube x y z s (s / 30 * 30 * t) False)"
proof -
  have "1 * (1141 / 62500) \<le> s * t"
    using assms by (intro mult_mono) simp_all
  then have st: "1141 / 62500 \<le> s * t" by simp
  have e: "s / 30 * 10 * t = s * t / 3" "s / 30 * 30 * t = s * t" by simp_all
  show "s / 30 * 10 * t < s / 30 * 30 * t" unfolding e using st by linarith
  show "box_depth (createCube x' y' z' s (s / 30 * 10 * t) True)
           < box_depth (createCube x y z s (s / 30 * 30 * t) False)"
    unfolding e createCube_def Let_def using st by simp
qed

text \<open>
  C8.  The frames of the program are \<^verbatim>\<open>drawCubeFrame(i * 4, i)\<close> for whole numbers
  \<open>i\<close> from 5 to 65 (lines 89, 90 and 202); the statement is for every whole \<open>i\<close>
  from 1.  Every cube of such a frame is the cube \<open>frame_cell\<close> of a point with
  \<open>|x| = 2 i\<close> or \<open>|y| = 2 i\<close>, in the light list if it is light and in the dark list
  if it is dark.  For such a point: if the raw sample exceeds the threshold the cell is
  light, with offset \<open>size / 30 * 15 * nF\<close> and height \<open>size / 30 * 30 * nF\<close>; otherwise
  it is dark, with offset \<open>size / 30 * 5 * nF\<close> and height \<open>size / 30 * 10 * nF\<close>.  The
  normalised sample \<open>nF\<close> of such a point is at least \<open>1141 / 62500\<close>, whatever the
  table, so the light height is strictly greater than the dark height for the same
  \<open>size\<close> and \<open>nF\<close>, and so is the depth of the box after the floor 0.01 of
  \<^verbatim>\<open>createCube\<close>: a light cell is strictly taller than any dark cell of the same size
  and normalised sample, under any threshold.
\<close>

theorem processed_cells_taller:
  fixes n :: int
  assumes "1 \<le> n" and "\<bar>x\<bar> = 2 * of_int n \<or> \<bar>y\<bar> = 2 * of_int n"
  shows "(\<exists>f. drawCubeFrame p thr (of_int n * 4) (of_int n) = Some f
         \<and> (\<forall>c\<in>set (lightCubes f). \<not> box_dark c
              \<and> (\<bar>box_x c\<bar> = 2 * of_int n \<or> \<bar>box_y c\<bar> = 2 * of_int n)
              \<and> c = frame_cell p thr (of_int n) (box_x c) (box_y c))
         \<and> (\<forall>c\<in>set (darkCubes f). box_dark c
              \<and> (\<bar>box_x c\<bar> = 2 * of_int n \<or> \<bar>box_y c\<bar> = 2 * of_int n)
              \<and> c = frame_cell p thr (of_int n) (box_x c) (box_y c)))
   \<and> frame_cell p thr (of_int n) x y =
       (if raw_sample p x y > thr
        then createCube x y (of_int n / 30 * 15 * normalised_sample p (of_int n) x y) (of_int n)
               (of_int n / 30 * 30 * normalised_sample p (of_int n) x y) False
        else createCube x y (of_int n / 30 * 5 * normalised_sample p (of_int n) x y) (of_int n)
               (of_int n / 30 * 10 * normalised_sample p (of_int n) x y) True)
   \<and> frame_cell p thr (of_int n) x y =
       (case extrusion thr (of_int n) (normalised_sample p (of_int n) x y) (raw_sample p x y) of
          (zPos, h, isDark) \<Rightarrow> createCube x y zPos (of_int n) h isDark)
   \<and> 1141 / 62500 \<le> normalised_sample p (of_int n) x y
   \<and> of_int n / 30 * 10 * normalised_sample p (of_int n) x y
       < of_int n / 30 * 30 * normalised_sample p (of_int n) x y
   \<and> (raw_sample p x y > thr \<and> raw_sample p x' y' \<le> thr'
        \<and> normalised_sample p (of_int n) x' y' = normalised_sample p (of_int n) x y \<longrightarrow>
      \<not> box_dark (frame_cell p thr (of_int n) x y)
      \<and> box_dark (frame_cell p thr' (of_int n) x' y')
      \<and> box_depth (frame_cell p thr' (of_int n) x' y')
           < box_depth (frame_cell p thr (of_int n) x y))
   \<and> (raw_sample p x y \<le> thr \<and> raw_sample p x' y' > thr'
        \<and> normalised_sample p (of_int n) x' y' = normalised_sample p (of_int n) x y \<longrightarrow>
      box_dark (frame_cell p thr (of_int n) x y)
      \<and> \<not> box_dark (frame_cell p thr' (of_int n) x' y')
      \<and> box_depth (frame_cell p thr (of_int n) x y)
           < box_depth (frame_cell p thr' (of_int n) x' y'))"
proof -
  let ?i = "real_of_int n"
  let ?t = "normalised_sample p ?i x y"
  have i: "1 \<le> ?i" using assms(1) by simp
  then have pos: "0 < ?i" by simp
  have frames: "\<exists>f. drawCubeFrame p thr (?i * 4) ?i = Some f
         \<and> (\<forall>c\<in>set (lightCubes f). \<not> box_dark c
              \<and> (\<bar>box_x c\<bar> = 2 * ?i \<or> \<bar>box_y c\<bar> = 2 * ?i)
              \<and> c = frame_cell p thr ?i (box_x c) (box_y c))
         \<and> (\<forall>c\<in>set (darkCubes f). box_dark c
              \<and> (\<bar>box_x c\<bar> = 2 * ?i \<or> \<bar>box_y c\<bar> = 2 * ?i)
              \<and> c = frame_cell p thr ?i (box_x c) (box_y c))"
    by (rule drawCubeFrame_classes [OF pos])
  have cell: "frame_cell p thr ?i x y =
       (if raw_sample p x y > thr
        then createCube x y (?i / 30 * 15 * ?t) ?i (?i / 30 * 30 * ?t) False
        else createCube x y (?i / 30 * 5 * ?t) ?i (?i / 30 * 10 * ?t) True)"
    by (rule frame_cell_classes)
  have cell': "frame_cell p thr ?i x y =
       (case extrusion thr ?i ?t (raw_sample p x y) of
          (zPos, h, isDark) \<Rightarrow> createCube x y zPos ?i h isDark)"
    by (simp only: frame_cell_def Let_def normalised_sample_def raw_sample_def)
  have low: "1141 / 62500 \<le> ?t"
    by (rule normalised_sample_lower [OF assms(2)])
  have raw: "?i / 30 * 10 * ?t < ?i / 30 * 30 * ?t"
    by (rule floored_taller(1) [OF i low])
  have depth: "box_depth (createCube a' b' c' ?i (?i / 30 * 10 * ?t) True)
           < box_depth (createCube a b c ?i (?i / 30 * 30 * ?t) False)" for a b c a' b' c'
    by (rule floored_taller(2) [OF i low])
  have light: "raw_sample p x y > thr \<and> raw_sample p x' y' \<le> thr'
        \<and> normalised_sample p ?i x' y' = ?t \<longrightarrow>
      \<not> box_dark (frame_cell p thr ?i x y)
      \<and> box_dark (frame_cell p thr' ?i x' y')
      \<and> box_depth (frame_cell p thr' ?i x' y') < box_depth (frame_cell p thr ?i x y)"
  proof (intro impI, elim conjE)
    assume a: "raw_sample p x y > thr" "raw_sample p x' y' \<le> thr'"
      "normalised_sample p ?i x' y' = ?t"
    have 1: "frame_cell p thr ?i x y = createCube x y (?i / 30 * 15 * ?t) ?i (?i / 30 * 30 * ?t) False"
      using a(1) by (simp add: frame_cell_classes)
    have 2: "frame_cell p thr' ?i x' y' = createCube x' y' (?i / 30 * 5 * ?t) ?i (?i / 30 * 10 * ?t) True"
      using a(2,3) by (simp add: frame_cell_classes)
    show "\<not> box_dark (frame_cell p thr ?i x y)
      \<and> box_dark (frame_cell p thr' ?i x' y')
      \<and> box_depth (frame_cell p thr' ?i x' y') < box_depth (frame_cell p thr ?i x y)"
      unfolding 1 2 by (intro conjI depth) (simp_all add: createCube_def Let_def)
  qed
  have dark: "raw_sample p x y \<le> thr \<and> raw_sample p x' y' > thr'
        \<and> normalised_sample p ?i x' y' = ?t \<longrightarrow>
      box_dark (frame_cell p thr ?i x y)
      \<and> \<not> box_dark (frame_cell p thr' ?i x' y')
      \<and> box_depth (frame_cell p thr ?i x y) < box_depth (frame_cell p thr' ?i x' y')"
  proof (intro impI, elim conjE)
    assume a: "raw_sample p x y \<le> thr" "raw_sample p x' y' > thr'"
      "normalised_sample p ?i x' y' = ?t"
    have 1: "frame_cell p thr ?i x y = createCube x y (?i / 30 * 5 * ?t) ?i (?i / 30 * 10 * ?t) True"
      using a(1) by (simp add: frame_cell_classes)
    have 2: "frame_cell p thr' ?i x' y' = createCube x' y' (?i / 30 * 15 * ?t) ?i (?i / 30 * 30 * ?t) False"
      using a(2,3) by (simp add: frame_cell_classes)
    show "box_dark (frame_cell p thr ?i x y)
      \<and> \<not> box_dark (frame_cell p thr' ?i x' y')
      \<and> box_depth (frame_cell p thr ?i x y) < box_depth (frame_cell p thr' ?i x' y')"
      unfolding 1 2 by (intro conjI depth) (simp_all add: createCube_def Let_def)
  qed
  show ?thesis
    apply (rule conjI, rule frames)
    apply (rule conjI, rule cell)
    apply (rule conjI, rule cell')
    apply (rule conjI, rule low)
    apply (rule conjI, rule raw)
    apply (rule conjI, rule light)
    apply (rule dark)
    done
qed

theorem processed_cells_taller_witness:
  "(1 :: int) \<le> 5 \<and> \<bar>10 :: real\<bar> = 2 * of_int 5
   \<and> 1141 / 62500 \<le> normalised_sample (table permutation) 5 10 5
   \<and> 5 / 30 * 10 * normalised_sample (table permutation) 5 10 5
       < 5 / 30 * 30 * normalised_sample (table permutation) 5 10 5
   \<and> frame_cell (table permutation) 0 5 10 5 =
       (if raw_sample (table permutation) 10 5 > 0
        then createCube 10 5 (5 / 30 * 15 * normalised_sample (table permutation) 5 10 5) 5
               (5 / 30 * 30 * normalised_sample (table permutation) 5 10 5) False
        else createCube 10 5 (5 / 30 * 5 * normalised_sample (table permutation) 5 10 5) 5
               (5 / 30 * 10 * normalised_sample (table permutation) 5 10 5) True)"
proof -
  have h: "(1 :: int) \<le> 5" "\<bar>10 :: real\<bar> = 2 * of_int 5 \<or> \<bar>5 :: real\<bar> = 2 * of_int 5"
    by simp_all
  have five: "real_of_int 5 = 5" by simp
  from processed_cells_taller [OF h, of "table permutation" 0]
  show ?thesis unfolding five by simp
qed

theorem frames_scan_witness:
  "\<exists>fs. collect_frames (table permutation) 0 60 9 =
        Some \<lparr>lightCubes = concat (map lightCubes fs), darkCubes = concat (map darkCubes fs)\<rparr>
    \<and> length fs = 1
    \<and> drawCubeFrame (table permutation) 0 240 60 = Some (fs ! 0)
    \<and> (120, 60) \<in> frame_positions (fs ! 0)
    \<and> (60, 60) \<notin> frame_positions (fs ! 0)
    \<and> cube_count (fs ! 0) = 16"
proof -
  have h1: "(0::real) < 60" and h2: "(0::real) < 9" by simp_all
  have n: "nat \<lfloor>(65 - 60) / 9 :: real\<rfloor> = 0" by simp
  from frames_scan [OF h1 h2, of "table permutation" 0]
  obtain fs where fs: "collect_frames (table permutation) 0 60 9 =
        Some \<lparr>lightCubes = concat (map lightCubes fs), darkCubes = concat (map darkCubes fs)\<rparr>"
    "length fs = 1"
    "\<forall>k<length fs.
          60 + real k * 9 \<le> 65
        \<and> drawCubeFrame (table permutation) 0 ((60 + real k * 9) * 4) (60 + real k * 9) = Some (fs ! k)
        \<and> frame_positions (fs ! k) =
            {(x, y). x \<in> set (frame_lattice (60 + real k * 9)) \<and>
                     y \<in> set (frame_lattice (60 + real k * 9)) \<and>
                     (x = - 2 * (60 + real k * 9) \<or> x = 2 * (60 + real k * 9) \<or>
                      y = - 2 * (60 + real k * 9) \<or> y = 2 * (60 + real k * 9))}
        \<and> cube_count (fs ! k) = 16"
    unfolding n by auto
  from fs(2,3) have "drawCubeFrame (table permutation) 0 240 60 = Some (fs ! 0)
      \<and> frame_positions (fs ! 0) =
            {(x, y). x \<in> set (frame_lattice 60) \<and> y \<in> set (frame_lattice 60) \<and>
                     (x = - 2 * 60 \<or> x = 2 * 60 \<or> y = - 2 * 60 \<or> y = 2 * 60)}
      \<and> cube_count (fs ! 0) = 16"
    by simp
  then have "drawCubeFrame (table permutation) 0 240 60 = Some (fs ! 0)
      \<and> (120, 60) \<in> frame_positions (fs ! 0) \<and> (60, 60) \<notin> frame_positions (fs ! 0)
      \<and> cube_count (fs ! 0) = 16"
    by (simp add: frame_lattice_def)
  with fs(1,2) show ?thesis by blast
qed

text \<open>
  C9 as stated fails: the frame of the value 5 is not the grid of side 5 scanned at step
  5, which has the four corner points only.  It has 16 cubes, one of them at
  \<open>(-10, -5)\<close>.
\<close>

theorem frame_step_counterexample:
  "\<exists>f g. collect_frame (table permutation) 0 5 \<lparr>lightCubes = [], darkCubes = []\<rparr> = Some f
     \<and> cube_count f = 16
     \<and> (- 10, - 5) \<in> frame_positions f
     \<and> drawCubeFrame (table permutation) 0 5 5 = Some g
     \<and> cube_count g = 4
     \<and> frame_positions g = {(- 5 / 2, - 5 / 2), (- 5 / 2, 5 / 2), (5 / 2, - 5 / 2), (5 / 2, 5 / 2)}
     \<and> f \<noteq> g"
proof -
  let ?T = "table permutation"
  let ?e = "\<lparr>lightCubes = [], darkCubes = []\<rparr>"
  from frame_scan [of 5 ?T 0] obtain f where f: "drawCubeFrame ?T 0 (5 * 4) 5 = Some f"
    "frame_positions f =
        {(x, y). x \<in> set (frame_lattice 5) \<and> y \<in> set (frame_lattice 5) \<and>
                 (x = - 2 * 5 \<or> x = 2 * 5 \<or> y = - 2 * 5 \<or> y = 2 * 5)}"
    "cube_count f = 16"
    by auto
  have cf: "collect_frame ?T 0 5 ?e = Some f"
    using f(1) by (simp add: collect_frame_def)
  have pf: "(- 10, - 5) \<in> frame_positions f"
    unfolding f(2) by (simp add: frame_lattice_def)
  have t: "ticks (- 5 / 2) (5 / 2) 5 = [- 5 / 2, 5 / 2]"
    by (simp add: ticks_def upt_rec [of _ 2] upt_rec [of _ 1] eval_nat_numeral)
  define g where "g = fold (\<lambda>x. fold (frame_point ?T 0 5 5 x) [- 5 / 2, 5 / 2]) [- 5 / 2, 5 / 2] ?e"
  have g: "drawCubeFrame ?T 0 5 5 = Some g"
    unfolding g_def using drawCubeFrame_fold [of 5 ?T 0 5] by (simp only: t)
  have cg: "cube_count g = 4"
    unfolding g_def grid_count by (simp add: on_edge_def cube_count_def)
  have pg: "frame_positions g = {(- 5 / 2, - 5 / 2), (- 5 / 2, 5 / 2), (5 / 2, - 5 / 2), (5 / 2, 5 / 2)}"
    unfolding g_def grid_positions by (auto simp: on_edge_def frame_positions_def)
  have "f \<noteq> g" using cg f(3) by auto
  with cf f(3) pf g cg pg show ?thesis by blast
qed

section \<open>Properties of the lattice mesh synthesizer\<close>

















lemma slice_loop_stuck:
  assumes "slice_loop d t b y m = Some res"
  shows "\<not> (cubeSize d = Fin 0 \<and> (\<exists>v. y = Fin v) \<and> js_le y t)"
  using assms
proof (rule slice_loop.raw_induct [rotated 1,
    where P = "\<lambda>d t b y m res. \<not> (cubeSize d = Fin 0 \<and> (\<exists>v. y = Fin v) \<and> js_le y t)"])
  fix loop :: "diamond \<Rightarrow> jsnum \<Rightarrow> jsnum \<Rightarrow> jsnum \<Rightarrow> mesh \<Rightarrow> mesh option"
  fix d t b y m res
  assume IH: "\<And>d t b y m res. loop d t b y m = Some res \<Longrightarrow>
      \<not> (cubeSize d = Fin 0 \<and> (\<exists>v. y = Fin v) \<and> js_le y t)"
  assume eq: "(if js_le y t
      then Option.bind (slice d t b y m) (loop d t b (js_add y (cubeSize d)))
      else Some m) = Some res"
  show "\<not> (cubeSize d = Fin 0 \<and> (\<exists>v. y = Fin v) \<and> js_le y t)"
  proof
    assume a: "cubeSize d = Fin 0 \<and> (\<exists>v. y = Fin v) \<and> js_le y t"
    then obtain v where v: "y = Fin v" by auto
    with a have same: "js_add y (cubeSize d) = y" by simp
    from a eq obtain m' where "loop d t b y m' = Some res"
      by (auto simp: same split: if_splits Option.bind_splits)
    from IH [OF this] a show False by simp
  qed
qed

text \<open>
  C7, evaluated where it fails.  With radius 0 and height 0 the cube size is 0, the outer
  loop of \<^verbatim>\<open>createGeometry\<close> never advances \<open>y\<close>, and the call does not return.
\<close>

theorem degenerate_diamond_hangs:
  "createGeometry (ParametricDiamond (Fin 0) (Fin 0) (Fin 3)) = None"
proof (rule ccontr)
  let ?d = "ParametricDiamond (Fin 0) (Fin 0) (Fin 3)"
  assume "createGeometry ?d \<noteq> None"
  then obtain res where "createGeometry ?d = Some res" by auto
  then have "slice_loop ?d (Fin 0) (Fin 0) (Fin 0) \<lparr>positions = [], indices = []\<rparr> = Some res"
    by (simp add: createGeometry_def Let_def ParametricDiamond_def)
  from slice_loop_stuck [OF this] show False
    by (simp add: ParametricDiamond_def)
qed














end
